theory Spec2Isabelle
  imports Main "HOL-Library.Word"
begin

unbundle bit_operations_syntax

section \<open>Data model\<close>

text \<open>
  A Go \<open>string\<close> and the contents of a \<open>bytes.Buffer\<close> are sequences of bytes: they are
  modelled as \<^typ>\<open>string\<close>, the HOL type of lists of 8-bit characters.  A \<open>rune\<close> is a code
  point, modelled as an \<^typ>\<open>int\<close> (no arithmetic is done on runes).
\<close>

type_synonym rune = int

abbreviation TAB :: rune where "TAB \<equiv> 9"           \<comment> \<open>\<open>'\t'\<close>\<close>
abbreviation LF :: rune where "LF \<equiv> 10"           \<comment> \<open>\<open>'\n'\<close>\<close>
abbreviation CR :: rune where "CR \<equiv> 13"           \<comment> \<open>\<open>'\r'\<close>\<close>
abbreviation SPC :: rune where "SPC \<equiv> 32"         \<comment> \<open>\<open>' '\<close>\<close>
abbreviation BANG :: rune where "BANG \<equiv> 33"       \<comment> \<open>\<open>'!'\<close>\<close>
abbreviation HASH :: rune where "HASH \<equiv> 35"       \<comment> \<open>\<open>'#'\<close>\<close>
abbreviation SEMI :: rune where "SEMI \<equiv> 59"       \<comment> \<open>\<open>';'\<close>\<close>
abbreviation BSLASH :: rune where "BSLASH \<equiv> 92"   \<comment> \<open>the backslash\<close>
abbreviation LBRACE :: rune where "LBRACE \<equiv> 123"  \<comment> \<open>\<open>'{'\<close>\<close>
abbreviation RBRACE :: rune where "RBRACE \<equiv> 125"  \<comment> \<open>\<open>'}'\<close>\<close>

text \<open>
  The errors of the package: \<open>io.EOF\<close>, \<open>ErrUnexpectedNodeLeave\<close>, and any other error a
  source may return (named by a number).  A Go \<open>error\<close> value is an \<open>error option\<close>, \<open>nil\<close>
  being \<open>None\<close>.
\<close>

datatype error = EOF | ErrUnexpectedNodeLeave | SourceError nat

text \<open>The pieces of \<open>piece.go\<close>.  A \<open>Piece\<close> interface value is a \<open>Piece option\<close>.\<close>

datatype Piece =
    Field string string
  | Comment string
  | NodeEnter string
  | NodeLeave int

text \<open>
  The continuation held in \<open>Parser.next\<close> (the Go interface \<open>parser\<close>): \<open>readFn(p.readKey)\<close>,
  the closure returned by \<open>p.readComment(next)\<close> (whose captured \<open>next\<close> may be \<open>nil\<close>),
  \<open>errReader{err}\<close> and \<open>eofReader\<close>.  The closures of \<open>p.comment\<close> and \<open>p.field\<close> are never
  built by the package and are left out.
\<close>

datatype parser =
    ReadKeyFn
  | ReadCommentFn "parser option"
  | ErrReader error
  | EofReader

record Parser =
  readComments :: bool
  keepSeqWhitespace :: bool
  keepTrailingWhitespace :: bool
  depth :: int
  nxt :: "parser option"
  buf :: string

datatype Configuration = ReadComments bool | TrimWhitespace bool | CompressWhitespace bool

fun apply_cfg :: "Configuration \<Rightarrow> Parser \<Rightarrow> Parser" where
  "apply_cfg (ReadComments b) p = p\<lparr>readComments := b\<rparr>"
| "apply_cfg (TrimWhitespace b) p = p\<lparr>keepTrailingWhitespace := \<not> b\<rparr>"
| "apply_cfg (CompressWhitespace b) p = p\<lparr>keepSeqWhitespace := \<not> b\<rparr>"

definition Reset :: "Parser \<Rightarrow> Configuration list \<Rightarrow> Parser" where
  "Reset p configs =
     fold apply_cfg configs
       \<lparr>readComments = False, keepSeqWhitespace = False, keepTrailingWhitespace = False,
        depth = 0, nxt = None, buf = []\<rparr>"

definition NewParser :: "Configuration list \<Rightarrow> Parser" where
  "NewParser configs =
     Reset \<lparr>readComments = False, keepSeqWhitespace = False, keepTrailingWhitespace = False,
            depth = 0, nxt = None, buf = []\<rparr> configs"

section \<open>The code-point source\<close>

text \<open>
  A \<open>Reader\<close> is an interface.  It is modelled as the finite sequence of code points it still
  has to deliver, followed by a terminal error that it returns on every later call (\<open>io.EOF\<close>
  for a source that ends cleanly).  With the error, \<open>ReadRune\<close> returns the zero rune, as the
  readers of the standard library do.  The byte-level \<open>Read\<close> of the same source, which
  \<open>readUntil\<close> uses, delivers the UTF-8 encoding of these code points.
\<close>

type_synonym Reader = "rune list \<times> error"

fun ReadRune :: "Reader \<Rightarrow> rune \<times> error option \<times> Reader" where
  "ReadRune ([], e) = (0, Some e, ([], e))"
| "ReadRune (c # cs, e) = (c, None, (cs, e))"

lemma ReadRune_measure:
  "(case ReadRune (cs, e) of
      (c, err, r') \<Rightarrow> 2 * length (fst r') + (if err = None then 1 else 0))
     < Suc (2 * length cs)"
  by (cases cs) auto

text \<open>The code points of an ASCII text, as a source over that text delivers them.\<close>

definition runes :: "string \<Rightarrow> rune list" where
  "runes s = map of_char s"

text \<open>
  \<open>utf8.AppendRune\<close>, which \<open>bytes.Buffer.WriteRune\<close> uses: a value that is no code point
  (negative, above \<open>0x10FFFF\<close>, or a surrogate) is written as \<open>U+FFFD\<close>.
\<close>

definition encodeRune :: "rune \<Rightarrow> string" where
  "encodeRune r0 =
     (let r = (if r0 < 0 \<or> 0x10FFFF < r0 \<or> (0xD800 \<le> r0 \<and> r0 \<le> 0xDFFF) then 0xFFFD else r0)
      in if r < 0x80 then [char_of r]
         else if r < 0x800 then [char_of (0xC0 + r div 64), char_of (0x80 + r mod 64)]
         else if r < 0x10000 then
           [char_of (0xE0 + r div 4096), char_of (0x80 + r div 64 mod 64), char_of (0x80 + r mod 64)]
         else
           [char_of (0xF0 + r div 262144), char_of (0x80 + r div 4096 mod 64),
            char_of (0x80 + r div 64 mod 64), char_of (0x80 + r mod 64)])"

definition WriteRune :: "string \<Rightarrow> rune \<Rightarrow> string" where
  "WriteRune b c = b @ encodeRune c"

text \<open>\<open>unicode.IsSpace\<close>: the code points with the Unicode property White_Space.\<close>

definition IsSpace :: "rune \<Rightarrow> bool" where
  "IsSpace r \<longleftrightarrow>
     (9 \<le> r \<and> r \<le> 13) \<or> r = 0x20 \<or> r = 0x85 \<or> r = 0xA0 \<or> r = 0x1680 \<or>
     (0x2000 \<le> r \<and> r \<le> 0x200A) \<or> r = 0x2028 \<or> r = 0x2029 \<or> r = 0x202F \<or>
     r = 0x205F \<or> r = 0x3000"

text \<open>
  \<open>readUntil(r, delim)\<close>: the bytes up to and including the first \<open>delim\<close>, or all the
  remaining bytes together with the error that ended the reading.  The delimiter is an ASCII
  byte at every call (\<open>'\n'\<close>), so it is found exactly at the code point of that value.
\<close>

fun readUntil :: "Reader \<Rightarrow> char \<Rightarrow> string \<times> error option \<times> Reader" where
  "readUntil ([], e) delim = ([], Some e, ([], e))"
| "readUntil (c # cs, e) delim =
     (if c = of_char delim then ([delim], None, (cs, e))
      else (case readUntil (cs, e) delim of
              (s, err, r') \<Rightarrow> (encodeRune c @ s, err, r')))"

section \<open>The 8-bit fallback reader (\<open>reader.go\<close>)\<close>

text \<open>
  \<open>ASCIIReader\<close> wraps an \<open>io.Reader\<close>, modelled as the bytes it still has to deliver and
  its terminal error.  \<open>ReadByte\<close> reads into a zeroed one-byte array, so it returns the zero
  byte with the error.
\<close>

type_synonym ByteReader = "string \<times> error"

fun ASCIIReader_ReadByte :: "ByteReader \<Rightarrow> char \<times> error option \<times> ByteReader" where
  "ASCIIReader_ReadByte ([], e) = (CHR 0x00, Some e, ([], e))"
| "ASCIIReader_ReadByte (b # bs, e) = (b, None, (bs, e))"

text \<open>\<open>ReadRune\<close> returns the rune, its size and the error; the test is \<open>b&0x8 != 0\<close>.\<close>

definition ASCIIReader_ReadRune :: "ByteReader \<Rightarrow> rune \<times> int \<times> error option \<times> ByteReader" where
  "ASCIIReader_ReadRune r =
     (case ASCIIReader_ReadByte r of
        (b, err, r') \<Rightarrow>
          if err \<noteq> None then (of_char b, 1, err, r')
          else if (of_char b :: 8 word) AND 0x8 \<noteq> 0 then (0xFFFD, 1, None, r')
          else (of_char b, 1, err, r'))"

section \<open>The parser engine (\<open>sparse.go\<close>)\<close>

type_synonym result = "parser option \<times> Piece option \<times> error option \<times> Parser \<times> Reader"

text \<open>
  The loop \<open>for (c == ' ' || c == '\t' || c == '\n' || c == '\r') && err == nil\<close> that opens
  \<open>readKey\<close> and \<open>readValue\<close>.
\<close>

function skipSpace :: "rune \<Rightarrow> error option \<Rightarrow> Reader \<Rightarrow> rune \<times> error option \<times> Reader" where
  "skipSpace c err r =
     (if (c = SPC \<or> c = TAB \<or> c = LF \<or> c = CR) \<and> err = None
      then (case ReadRune r of (c', err', r') \<Rightarrow> skipSpace c' err' r')
      else (c, err, r))"
  by pat_completeness auto
termination
  by (relation "measure (\<lambda>(c, err, r). 2 * length (fst r) + (if err = None then 1 else 0))")
     (auto simp: ReadRune_measure)

text \<open>
  The opening of \<open>readKey\<close> and \<open>readValue\<close>: \<open>c, _, err := r.ReadRune()\<close> followed by that
  loop.
\<close>

definition readFirst :: "Reader \<Rightarrow> rune \<times> error option \<times> Reader" where
  "readFirst r = (case ReadRune r of (c, err, r') \<Rightarrow> skipSpace c err r')"

text \<open>The \<open>switch\<close> that decodes the character after a backslash.\<close>

definition unescape :: "rune \<Rightarrow> rune" where
  "unescape c =
     (if c = 116 then TAB          \<comment> \<open>\<open>'t'\<close>\<close>
      else if c = 110 then LF      \<comment> \<open>\<open>'n'\<close>\<close>
      else if c = 114 then CR      \<comment> \<open>\<open>'r'\<close>\<close>
      else if c = 98 then 8        \<comment> \<open>\<open>'b'\<close>\<close>
      else if c = 102 then 12      \<comment> \<open>\<open>'f'\<close>\<close>
      else if c = 48 then 0        \<comment> \<open>\<open>'0'\<close>\<close>
      else if c = 118 then 11      \<comment> \<open>\<open>'v'\<close>\<close>
      else c)"

text \<open>
  \<open>chompBuffer\<close>: drops the trailing bytes of the buffer that are white space other than
  \<open>'\n'\<close>, each byte being read as a rune.
\<close>

fun chomp_rev :: "string \<Rightarrow> string" where
  "chomp_rev [] = []"
| "chomp_rev (b # bs) =
     (if of_char b = LF \<or> \<not> IsSpace (of_char b) then b # bs else chomp_rev bs)"

definition chompBuffer :: "string \<Rightarrow> string" where
  "chompBuffer b = rev (chomp_rev (rev b))"

text \<open>\<open>bytes.TrimRight(b, cutset)\<close> for a cutset of ASCII bytes.\<close>

definition TrimRight :: "string \<Rightarrow> string \<Rightarrow> string" where
  "TrimRight b cutset = rev (dropWhile (\<lambda>c. c \<in> set cutset) (rev b))"

definition trimCutset :: string where
  "trimCutset = [CHR '' '', CHR 0x0A, CHR 0x09, CHR 0x0D]"

text \<open>
  One turn of the accumulation loop of \<open>readKey\<close>, from its top to the label \<open>skipWrite\<close>:
  the new values of \<open>escape\<close>, \<open>last\<close> and the buffer.
\<close>

definition keyBody :: "bool \<Rightarrow> bool \<Rightarrow> rune \<Rightarrow> string \<Rightarrow> rune \<Rightarrow> bool \<times> rune \<times> string" where
  "keyBody keepSeq escape lst b c =
     (if c = CR then (escape, lst, b)
      else if \<not> escape \<and> c = BSLASH then (True, lst, b)
      else if escape then
        (let b1 = (if c = LF \<and> \<not> keepSeq then chompBuffer b else b);
             c1 = (if c = LF then c else unescape c)
         in (False, c1, WriteRune b1 c1))
      else if c = CR then (escape, lst, b)
      else if \<not> keepSeq \<and> IsSpace lst \<and> IsSpace c then (escape, lst, b)
      else (escape, c, WriteRune b c))"

function keyLoop ::
  "bool \<Rightarrow> bool \<Rightarrow> rune \<Rightarrow> string \<Rightarrow> rune \<Rightarrow> error option \<Rightarrow> Reader
     \<Rightarrow> string \<times> rune \<times> error option \<times> Reader" where
  "keyLoop keepSeq escape lst b c err r =
     (if \<not> (\<not> escape \<and> (c = SPC \<or> c = BANG \<or> c = SEMI \<or> c = TAB \<or> c = LF \<or> c = CR \<or> c = HASH))
         \<and> err = None
      then (case keyBody keepSeq escape lst b c of
              (escape', lst', b') \<Rightarrow>
                (case ReadRune r of (c', err', r') \<Rightarrow> keyLoop keepSeq escape' lst' b' c' err' r'))
      else (b, c, err, r))"
  by pat_completeness auto
termination
  by (relation "measure (\<lambda>(k, esc, l, b, c, err, r).
                   2 * length (fst r) + (if err = None then 1 else 0))")
     (auto simp: ReadRune_measure)

text \<open>
  One turn of the accumulation loop of \<open>readValue\<close>, up to the label \<open>skipWrite\<close>; \<open>None\<close> is
  the \<open>break\<close>.
\<close>

definition valueBody ::
  "bool \<Rightarrow> bool \<Rightarrow> rune \<Rightarrow> string \<Rightarrow> rune \<Rightarrow> (bool \<times> rune \<times> string) option" where
  "valueBody keepSeq escape lst b c =
     (if c = CR then Some (escape, lst, b)
      else if \<not> escape \<and> c = BSLASH then Some (True, lst, b)
      else if \<not> escape \<and> c = HASH then None
      else if escape then
        (let b1 = (if c = LF \<and> \<not> keepSeq then chompBuffer b else b);
             c1 = (if c = LF then c else unescape c)
         in Some (False, c1, WriteRune b1 c1))
      else if \<not> keepSeq \<and> IsSpace lst \<and> IsSpace c then Some (escape, lst, b)
      else Some (escape, c, WriteRune b c))"

function valueLoop ::
  "bool \<Rightarrow> bool \<Rightarrow> rune \<Rightarrow> string \<Rightarrow> rune \<Rightarrow> error option \<Rightarrow> Reader
     \<Rightarrow> string \<times> rune \<times> error option \<times> Reader" where
  "valueLoop keepSeq escape lst b c err r =
     (if \<not> (\<not> escape \<and> (c = LF \<or> c = SEMI \<or> c = HASH)) \<and> err = None
      then (case valueBody keepSeq escape lst b c of
              None \<Rightarrow> (b, c, err, r)
            | Some (escape', lst', b') \<Rightarrow>
                (case ReadRune r of (c', err', r') \<Rightarrow> valueLoop keepSeq escape' lst' b' c' err' r'))
      else (b, c, err, r))"
  by pat_completeness auto
termination
  by (relation "measure (\<lambda>(k, esc, l, b, c, err, r).
                   2 * length (fst r) + (if err = None then 1 else 0))")
     (auto simp: ReadRune_measure)

text \<open>
  \<open>p.depth++\<close> and \<open>p.depth--\<close> on a Go \<open>int\<close> (64 bits, two's complement): the result wraps.
\<close>

definition wrap64 :: "int \<Rightarrow> int" where
  "wrap64 x = (x + 2 ^ 63) mod 2 ^ 64 - 2 ^ 63"

definition enter :: "Parser \<Rightarrow> string \<Rightarrow> Reader \<Rightarrow> result" where
  "enter p key r =
     (Some ReadKeyFn, Some (NodeEnter key), None, p\<lparr>depth := wrap64 (depth p + 1)\<rparr>, r)"

definition leave :: "Parser \<Rightarrow> Reader \<Rightarrow> result" where
  "leave p r =
     (if depth p = 0
      then (Some (ErrReader ErrUnexpectedNodeLeave), None, Some ErrUnexpectedNodeLeave, p, r)
      else (Some ReadKeyFn, Some (NodeLeave (depth p)), None, p\<lparr>depth := wrap64 (depth p - 1)\<rparr>, r))"

definition readComment :: "parser option \<Rightarrow> Parser \<Rightarrow> Reader \<Rightarrow> result" where
  "readComment next p r =
     (case readUntil r (CHR 0x0A) of
        (comment, err, r') \<Rightarrow>
          (let comment' = (if err = None then butlast comment else comment);
               next' = (if err \<noteq> None \<and> err \<noteq> Some EOF then Some (ErrReader (the err)) else next);
               piece = (if readComments p then Some (Comment comment') else None)
           in (next', piece, err, p, r')))"

definition readValue :: "Parser \<Rightarrow> Reader \<Rightarrow> string \<Rightarrow> result" where
  "readValue p r key =
     (case readFirst r of (c, err, r1) \<Rightarrow>
        if err \<noteq> None \<and> err \<noteq> Some EOF then (Some (ErrReader (the err)), None, err, p, r1)
        else if c = LBRACE then enter p key r1
        else if c = HASH then
          (Some (ReadCommentFn (Some ReadKeyFn)), Some (Field key []), None, p, r1)
        else
          (case valueLoop (keepSeqWhitespace p) False 0 (buf p) c err r1 of
             (b, c', err', r2) \<Rightarrow>
               (let next = (if err' = Some EOF then EofReader
                            else if c' = HASH then ReadCommentFn (Some ReadKeyFn)
                            else ReadKeyFn);
                    valueStr = (if 0 < length b
                                then (if \<not> keepTrailingWhitespace p then TrimRight b trimCutset
                                      else b)
                                else [])
                in (Some next, Some (Field key valueStr), err', p\<lparr>buf := []\<rparr>, r2))))"

definition readKey :: "Parser \<Rightarrow> Reader \<Rightarrow> result" where
  "readKey p r =
     (case readFirst r of (c, err, r1) \<Rightarrow>
        if err \<noteq> None \<and> err \<noteq> Some EOF then (Some EofReader, None, err, p, r1)
        else if c = RBRACE then leave p r1
        else if c = LBRACE then enter p [] r1
        else if c = HASH then (Some (ReadCommentFn (Some ReadKeyFn)), None, None, p, r1)
        else
          (case keyLoop (keepSeqWhitespace p) False 0 (buf p) c err r1 of
             (key, c', err', r2) \<Rightarrow>
               (let p' = p\<lparr>buf := []\<rparr>
                in if length key = 0 \<and> err' \<noteq> None then
                     (if err' = Some EOF then (Some EofReader, None, err', p', r2)
                      else (Some (ErrReader (the err')), None, err', p', r2))
                   else if err' = Some EOF then
                     (Some EofReader, Some (Field key []), err', p', r2)
                   else if c' = HASH then
                     (Some (ReadCommentFn None), Some (Field key []), err', p', r2)
                   else if c' = BANG \<or> c' = SEMI then
                     (Some ReadKeyFn, Some (Field key []), err', p', r2)
                   else readValue p' r2 key)))"

text \<open>The method \<open>read\<close> of each continuation.\<close>

fun read :: "parser \<Rightarrow> Parser \<Rightarrow> Reader \<Rightarrow> result" where
  "read ReadKeyFn p r = readKey p r"
| "read (ReadCommentFn next) p r = readComment next p r"
| "read (ErrReader e) p r = (Some (ErrReader e), None, Some e, p, r)"
| "read EofReader p r = (Some EofReader, None, Some EOF, p, r)"

section \<open>Every read uses up input\<close>

text \<open>
  The loops of \<open>Read\<close> and \<open>Parse\<close> end because a continuation that returns no error has
  taken at least one code point from the source, and none ever gives one back.
\<close>

declare skipSpace.simps [simp del] keyLoop.simps [simp del] valueLoop.simps [simp del]

lemma ReadRune_length:
  "ReadRune r = (c, err, r') \<Longrightarrow> length (fst r') \<le> length (fst r) \<and> snd r' = snd r"
  by (cases r rule: ReadRune.cases) auto

lemma skipSpace_length:
  "skipSpace c err r = (c', err', r') \<Longrightarrow> length (fst r') \<le> length (fst r) \<and> snd r' = snd r"
proof (induction c err r rule: skipSpace.induct)
  case (1 c err r)
  show ?case
  proof (cases "(c = SPC \<or> c = TAB \<or> c = LF \<or> c = CR) \<and> err = None")
    case True
    obtain c1 e1 r1 where rr: "ReadRune r = (c1, e1, r1)" by (cases "ReadRune r") auto
    from "1.prems" True rr have "skipSpace c1 e1 r1 = (c', err', r')"
      by (subst (asm) skipSpace.simps) simp
    from "1.IH" [OF True rr [symmetric] refl this] ReadRune_length [OF rr]
    show ?thesis by simp
  next
    case False
    with "1.prems" show ?thesis by (subst (asm) skipSpace.simps) auto
  qed
qed

lemma keyLoop_length:
  "keyLoop k esc l b c err r = (b', c', err', r') \<Longrightarrow>
     length (fst r') \<le> length (fst r) \<and> snd r' = snd r"
proof (induction k esc l b c err r rule: keyLoop.induct)
  case (1 k esc l b c err r)
  let ?cond = "\<not> (\<not> esc \<and> (c = SPC \<or> c = BANG \<or> c = SEMI \<or> c = TAB \<or> c = LF \<or> c = CR \<or> c = HASH)) \<and> err = None"
  show ?case
  proof (cases ?cond)
    case True
    obtain e1 l1 b1 where kb: "keyBody k esc l b c = (e1, l1, b1)" by (cases "keyBody k esc l b c") auto
    obtain c1 er1 r1 where rr: "ReadRune r = (c1, er1, r1)" by (cases "ReadRune r") auto
    from "1.prems" True kb rr have "keyLoop k e1 l1 b1 c1 er1 r1 = (b', c', err', r')"
      by (subst (asm) keyLoop.simps) simp
    from "1.IH" [OF True kb [symmetric] refl rr [symmetric] refl this] ReadRune_length [OF rr]
    show ?thesis by simp
  next
    case False
    with "1.prems" show ?thesis by (subst (asm) keyLoop.simps) auto
  qed
qed

lemma valueLoop_length:
  "valueLoop k esc l b c err r = (b', c', err', r') \<Longrightarrow>
     length (fst r') \<le> length (fst r) \<and> snd r' = snd r"
proof (induction k esc l b c err r rule: valueLoop.induct)
  case (1 k esc l b c err r)
  let ?cond = "\<not> (\<not> esc \<and> (c = LF \<or> c = SEMI \<or> c = HASH)) \<and> err = None"
  show ?case
  proof (cases ?cond)
    case True
    show ?thesis
    proof (cases "valueBody k esc l b c")
      case None
      with "1.prems" True show ?thesis by (subst (asm) valueLoop.simps) auto
    next
      case (Some st)
      obtain e1 l1 b1 where st: "st = (e1, l1, b1)" by (cases st) auto
      obtain c1 er1 r1 where rr: "ReadRune r = (c1, er1, r1)" by (cases "ReadRune r") auto
      from "1.prems" True Some st rr have "valueLoop k e1 l1 b1 c1 er1 r1 = (b', c', err', r')"
        by (subst (asm) valueLoop.simps) simp
      from "1.IH" [OF True Some st [symmetric] refl rr [symmetric] refl this] ReadRune_length [OF rr]
      show ?thesis by simp
    qed
  next
    case False
    with "1.prems" show ?thesis by (subst (asm) valueLoop.simps) auto
  qed
qed

lemma readUntil_length:
  "readUntil r d = (s, err, r') \<Longrightarrow>
     length (fst r') \<le> length (fst r) \<and> snd r' = snd r \<and> (err = None \<longrightarrow> length (fst r') < length (fst r))"
  by (induction r d arbitrary: s err r' rule: readUntil.induct)
     (auto split: if_splits prod.splits)

lemma skipSpace_stop: "skipSpace c (Some e) r = (c, Some e, r)"
  by (subst skipSpace.simps) simp

lemma keyLoop_stop: "keyLoop k esc l b c (Some e) r = (b, c, Some e, r)"
  by (subst keyLoop.simps) simp

lemma valueLoop_stop: "valueLoop k esc l b c (Some e) r = (b, c, Some e, r)"
  by (subst valueLoop.simps) simp

lemma readValue_length:
  assumes "readValue p r key = (n, pc, err, p', r')"
  shows "length (fst r') \<le> length (fst r) \<and> snd r' = snd r"
proof -
  obtain c0 e0 r0 where rr: "ReadRune r = (c0, e0, r0)" by (cases "ReadRune r") auto
  obtain c e r1 where ss: "skipSpace c0 e0 r0 = (c, e, r1)" by (cases "skipSpace c0 e0 r0") auto
  obtain b c' e' r2 where vl: "valueLoop (keepSeqWhitespace p) False 0 (buf p) c e r1 = (b, c', e', r2)"
    by (cases "valueLoop (keepSeqWhitespace p) False 0 (buf p) c e r1") auto
  note L = ReadRune_length [OF rr] skipSpace_length [OF ss] valueLoop_length [OF vl]
  from assms rr ss vl have "r' = r1 \<or> r' = r2"
    by (auto simp: readValue_def readFirst_def enter_def Let_def split: if_splits)
  with L show ?thesis by auto
qed

lemma readKey_length:
  assumes "readKey p r = (n, pc, err, p', r')"
  shows "length (fst r') \<le> length (fst r) \<and> snd r' = snd r \<and>
         (err = None \<longrightarrow> length (fst r') < length (fst r))"
proof -
  obtain c0 e0 r0 where rr: "ReadRune r = (c0, e0, r0)" by (cases "ReadRune r") auto
  obtain c e r1 where ss: "skipSpace c0 e0 r0 = (c, e, r1)" by (cases "skipSpace c0 e0 r0") auto
  obtain b c' e' r2 where kl: "keyLoop (keepSeqWhitespace p) False 0 (buf p) c e r1 = (b, c', e', r2)"
    by (cases "keyLoop (keepSeqWhitespace p) False 0 (buf p) c e r1") auto
  obtain n3 pc3 e3 p3 r3 where rv: "readValue (p\<lparr>buf := []\<rparr>) r2 b = (n3, pc3, e3, p3, r3)"
    by (cases "readValue (p\<lparr>buf := []\<rparr>) r2 b") auto
  note L = ReadRune_length [OF rr] skipSpace_length [OF ss] keyLoop_length [OF kl]
    readValue_length [OF rv]
  from assms rr ss kl rv have R: "r' = r1 \<or> r' = r2 \<or> r' = r3"
    by (auto simp: readKey_def readFirst_def enter_def leave_def Let_def split: if_splits)
  with L have le: "length (fst r') \<le> length (fst r0) \<and> snd r' = snd r" by auto
  show ?thesis
  proof (cases r rule: ReadRune.cases)
    case (1 fe)
    with rr have z: "c0 = 0" "e0 = Some fe" "r0 = r" by auto
    with ss have s: "c = 0" "e = Some fe" "r1 = r"
      by (auto simp: skipSpace_stop)
    with kl have k: "b = buf p" "c' = 0" "e' = Some fe" "r2 = r" by (auto simp: keyLoop_stop)
    from assms rr ss kl s k z have "err \<noteq> None"
      by (auto simp: readKey_def readFirst_def Let_def split: if_splits)
    with le 1 rr show ?thesis by auto
  next
    case (2 x xs fe)
    with rr have "length (fst r0) < length (fst r)" by auto
    with le show ?thesis by auto
  qed
qed

lemma read_length:
  assumes "read n p r = (n', pc, err, p', r')"
  shows "length (fst r') \<le> length (fst r) \<and> snd r' = snd r \<and>
         (err = None \<longrightarrow> length (fst r') < length (fst r))"
proof (cases n)
  case ReadKeyFn
  with assms show ?thesis using readKey_length [of p r n' pc err p' r'] by simp
next
  case (ReadCommentFn nx)
  obtain s e r1 where ru: "readUntil r (CHR 0x0A) = (s, e, r1)"
    by (cases "readUntil r (CHR 0x0A)") auto
  from assms ReadCommentFn ru have "r' = r1" "err = e"
    by (auto simp: readComment_def Let_def)
  with readUntil_length [OF ru] show ?thesis by simp
next
  case (ErrReader e)
  with assms show ?thesis by auto
next
  case EofReader
  with assms show ?thesis by auto
qed

section \<open>\<open>Parser.Read\<close> and \<open>Parse\<close>\<close>

text \<open>
  \<open>Read\<close>: the loop \<open>for p.next != nil && piece == nil && err == nil\<close>, entered with
  \<open>p.next\<close> set to \<open>readKey\<close> when it was \<open>nil\<close>.
\<close>

function ReadLoop ::
  "Parser \<Rightarrow> Piece option \<Rightarrow> error option \<Rightarrow> Reader \<Rightarrow> Piece option \<times> error option \<times> Parser \<times> Reader"
  where
  "ReadLoop p piece err r =
     (if nxt p \<noteq> None \<and> piece = None \<and> err = None
      then (case read (the (nxt p)) p r of
              (n, piece', err', p', r') \<Rightarrow> ReadLoop (p'\<lparr>nxt := n\<rparr>) piece' err' r')
      else (piece, err, p, r))"
  by pat_completeness auto
termination
  apply (relation "measure (\<lambda>(p, piece, err, r).
           if nxt p \<noteq> None \<and> piece = None \<and> err = None then Suc (length (fst r)) else 0)")
   apply simp
  subgoal for p piece err r x y xa ya xb yb xc yc
    using read_length [of "the (nxt p)" p r x xa xb xc yc] by (auto split: if_splits)
  done

definition Read :: "Parser \<Rightarrow> Reader \<Rightarrow> Piece option \<times> error option \<times> Parser \<times> Reader" where
  "Read p r = ReadLoop (if nxt p = None then p\<lparr>nxt := Some ReadKeyFn\<rparr> else p) None None r"

declare ReadLoop.simps [simp del]

lemma ReadLoop_length:
  "ReadLoop p piece err r = (piece', err', p', r') \<Longrightarrow>
     length (fst r') \<le> length (fst r) \<and> snd r' = snd r \<and>
     (nxt p \<noteq> None \<and> piece = None \<and> err = None \<longrightarrow> err' = None \<longrightarrow>
        length (fst r') < length (fst r))"
proof (induction p piece err r rule: ReadLoop.induct)
  case (1 p piece err r)
  show ?case
  proof (cases "nxt p \<noteq> None \<and> piece = None \<and> err = None")
    case True
    obtain n pc1 e1 p1 r1 where rd: "read (the (nxt p)) p r = (n, pc1, e1, p1, r1)"
      by (cases "read (the (nxt p)) p r") auto
    from "1.prems" True rd have rl: "ReadLoop (p1\<lparr>nxt := n\<rparr>) pc1 e1 r1 = (piece', err', p', r')"
      by (subst (asm) ReadLoop.simps) simp
    note IH = "1.IH" [OF True rd [symmetric] refl refl refl rl]
    note L = read_length [OF rd]
    show ?thesis
    proof (cases "n \<noteq> None \<and> pc1 = None \<and> e1 = None")
      case True
      with IH L show ?thesis by auto
    next
      case False
      with rl have "err' = e1" "r' = r1" by (subst (asm) ReadLoop.simps, auto)+
      with L show ?thesis by auto
    qed
  next
    case False
    with "1.prems" show ?thesis by (subst (asm) ReadLoop.simps) auto
  qed
qed

lemma Read_length:
  assumes "Read p r = (piece, err, p', r')"
  shows "length (fst r') \<le> length (fst r) \<and> snd r' = snd r \<and>
         (err = None \<longrightarrow> length (fst r') < length (fst r))"
  using ReadLoop_length [OF assms [unfolded Read_def]] by (auto split: if_splits)

text \<open>
  \<open>Parse\<close>: the loop \<open>for err == nil\<close> that appends a piece only when \<open>Read\<close> returned no
  error, then the replacement of \<open>io.EOF\<close> by \<open>nil\<close>.
\<close>

function ParseLoop ::
  "Parser \<Rightarrow> Reader \<Rightarrow> Piece option list \<Rightarrow> error option \<Rightarrow> Piece option list \<times> error option"
  where
  "ParseLoop p r pieces err =
     (if err = None
      then (case Read p r of
              (piece, err', p', r') \<Rightarrow>
                ParseLoop p' r' (if err' = None then pieces @ [piece] else pieces) err')
      else (pieces, err))"
  by pat_completeness auto
termination
  apply (relation "measure (\<lambda>(p, r, pieces, err).
           2 * length (fst r) + (if err = None then 1 else 0))")
   apply simp
  subgoal for p r pieces err x y xa ya xb yb
    using Read_length [of p r x xa xb yb] by (auto split: if_splits)
  done

definition Parse :: "Reader \<Rightarrow> Configuration list \<Rightarrow> Piece option list \<times> error option" where
  "Parse r configs =
     (case ParseLoop (Reset \<lparr>readComments = False, keepSeqWhitespace = False,
                            keepTrailingWhitespace = False, depth = 0, nxt = None, buf = []\<rparr>
                        configs) r [] None of
        (pieces, err) \<Rightarrow> (pieces, if err = Some EOF then None else err))"

declare ParseLoop.simps [simp del]

section \<open>The escaping tables\<close>

text \<open>
  The two replacers, \<open>strings.NewReplacer\<close> over the pairs below.  Every old string is a
  single byte, so \<open>Replace\<close> maps each byte of its argument on its own: a byte of the table
  to its replacement, any other byte to itself.  \<open>CHR 0x5C\<close> is the backslash.
\<close>

definition valueEscaper_table :: "(char \<times> string) list" where
  "valueEscaper_table =
     [(CHR ''#'', [CHR 0x5C, CHR ''#'']),
      (CHR '';'', [CHR 0x5C, CHR '';'']),
      (CHR 0x08, [CHR 0x5C, CHR ''b'']),
      (CHR 0x0C, [CHR 0x5C, CHR ''f'']),
      (CHR 0x0A, [CHR 0x5C, CHR 0x0A]),
      (CHR 0x0D, [CHR 0x5C, CHR ''r'']),
      (CHR 0x0B, [CHR 0x5C, CHR ''v'']),
      (CHR 0x00, [CHR 0x5C, CHR ''0''])]"

definition keyEscaper_table :: "(char \<times> string) list" where
  "keyEscaper_table =
     [(CHR '' '', [CHR 0x5C, CHR '' '']),
      (CHR ''#'', [CHR 0x5C, CHR ''#'']),
      (CHR '';'', [CHR 0x5C, CHR '';'']),
      (CHR 0x08, [CHR 0x5C, CHR ''b'']),
      (CHR 0x0C, [CHR 0x5C, CHR ''f'']),
      (CHR 0x0A, [CHR 0x5C, CHR ''n'']),
      (CHR 0x0D, [CHR 0x5C, CHR ''r'']),
      (CHR 0x09, [CHR 0x5C, CHR ''t'']),
      (CHR 0x0B, [CHR 0x5C, CHR ''v'']),
      (CHR 0x00, [CHR 0x5C, CHR ''0'']),
      (CHR ''!'', [CHR 0x5C, CHR ''!''])]"

definition Replace :: "(char \<times> string) list \<Rightarrow> string \<Rightarrow> string" where
  "Replace table s = concat (map (\<lambda>c. case map_of table c of Some new \<Rightarrow> new | None \<Rightarrow> [c]) s)"

definition valueEscaper :: "string \<Rightarrow> string" where
  "valueEscaper s = Replace valueEscaper_table s"

definition keyEscaper :: "string \<Rightarrow> string" where
  "keyEscaper s = Replace keyEscaper_table s"

section \<open>Properties\<close>

subsection \<open>The 8-bit fallback reader\<close>

lemma of_char_less_256_int: "(of_char b :: int) < 256"
proof -
  have "(of_char b :: int) = of_char b mod 256" by simp
  also have "\<dots> < 256" by (rule pos_mod_bound) simp
  finally show ?thesis .
qed

text \<open>
  Claim C9.  For every byte \<open>b\<close> that the 8-bit fallback reader reads without error,
  \<open>ReadRune\<close> returns the replacement character \<open>U+FFFD\<close> with size 1 exactly when \<open>b\<close> has
  bit \<open>0x8\<close> set, and otherwise \<open>rune(b)\<close> with size 1.  The test is on bit \<open>0x8\<close>, not
  \<open>0x80\<close>: the line feed \<open>0x0A\<close> is replaced, the byte \<open>0x80\<close> is not.
\<close>

theorem ASCIIReader_ReadRune_bit3:
  "ASCIIReader_ReadRune (b # bs, e) =
     ((if (of_char b :: 8 word) AND 0x8 \<noteq> 0 then 0xFFFD else of_char b), 1, None, (bs, e))
   \<and> (fst (ASCIIReader_ReadRune (b # bs, e)) = 0xFFFD \<longleftrightarrow> (of_char b :: 8 word) AND 0x8 \<noteq> 0)
   \<and> ASCIIReader_ReadRune ([CHR 0x0A], e) = (0xFFFD, 1, None, ([], e))
   \<and> ASCIIReader_ReadRune ([CHR 0x80], e) = (0x80, 1, None, ([], e))"
proof -
  have ne: "(of_char b :: int) \<noteq> 0xFFFD" using of_char_less_256_int [of b] by simp
  show ?thesis using ne by (simp add: ASCIIReader_ReadRune_def)
qed

subsection \<open>A piece returned together with end-of-stream\<close>

text \<open>
  Claim C1.  The claim is that \<open>Parse\<close> returns the final \<open>Field\<close> of a document whose last
  field is ended by end-of-stream.  \<open>readKey\<close> and \<open>readValue\<close> build that \<open>Field\<close> and return
  it together with \<open>io.EOF\<close>, and so does \<open>Read\<close>; \<open>Parse\<close> appends a piece only when the
  error is \<open>nil\<close>, so the piece is lost.  On the inputs \<open>a b\<close> (cut off in the value) and \<open>a\<close>
  (cut off in the key), with the default configuration, \<open>Parse\<close> returns no piece at all.
\<close>

theorem Parse_drops_piece_at_EOF:
  "Parse (runes ''a b'', EOF) [] = ([], None)
   \<and> Read (NewParser []) (runes ''a b'', EOF)
       = (Some (Field ''a'' ''b''), Some EOF, NewParser [] \<lparr>nxt := Some EofReader\<rparr>, ([], EOF))
   \<and> Parse (runes ''a'', EOF) [] = ([], None)
   \<and> Read (NewParser []) (runes ''a'', EOF)
       = (Some (Field ''a'' []), Some EOF, NewParser [] \<lparr>nxt := Some EofReader\<rparr>, ([], EOF))"
  by code_simp

subsection \<open>Leading white space\<close>

lemma skipSpace_ws:
  "set ws \<subseteq> {SPC, TAB, LF, CR} \<Longrightarrow> c \<in> {SPC, TAB, LF, CR} \<Longrightarrow>
     skipSpace c None (ws @ x # rest, e) =
       (case ReadRune (x # rest, e) of (c', err', r') \<Rightarrow> skipSpace c' err' r')"
proof (induction ws arbitrary: c)
  case Nil
  then show ?case by (subst skipSpace.simps) auto
next
  case (Cons w ws)
  from Cons.prems have w: "w \<in> {SPC, TAB, LF, CR}" and ws: "set ws \<subseteq> {SPC, TAB, LF, CR}" by auto
  have "skipSpace c None ((w # ws) @ x # rest, e) = skipSpace w None (ws @ x # rest, e)"
    using Cons.prems by (subst skipSpace.simps) auto
  with Cons.IH [OF ws w] show ?case by simp
qed

lemma skipSpace_first:
  assumes "set ws \<subseteq> {SPC, TAB, LF, CR}" "x \<notin> {SPC, TAB, LF, CR}"
  shows "readFirst (ws @ x # rest, e) = (x, None, (rest, e))"
proof -
  have stop: "skipSpace x None (rest, e) = (x, None, (rest, e))"
    using assms(2) by (subst skipSpace.simps) auto
  show ?thesis
  proof (cases ws)
    case Nil
    with stop show ?thesis by (simp add: readFirst_def)
  next
    case (Cons w ws')
    with assms have "w \<in> {SPC, TAB, LF, CR}" "set ws' \<subseteq> {SPC, TAB, LF, CR}" by auto
    from skipSpace_ws [OF this(2) this(1), of x rest e] stop Cons show ?thesis
      by (simp add: readFirst_def)
  qed
qed

lemma readValue_LBRACE:
  assumes "set ws \<subseteq> {SPC, TAB, LF, CR}"
  shows "readValue p (ws @ LBRACE # rest, e) key =
           (Some ReadKeyFn, Some (NodeEnter key), None, p\<lparr>depth := wrap64 (depth p + 1)\<rparr>, (rest, e))"
  using skipSpace_first [OF assms, of LBRACE rest e]
  by (simp add: readValue_def enter_def)

lemma readKey_RBRACE:
  assumes "set ws \<subseteq> {SPC, TAB, LF, CR}"
  shows "readKey p (ws @ RBRACE # rest, e) = leave p (rest, e)"
  using skipSpace_first [OF assms, of RBRACE rest e]
  by (simp add: readKey_def)

subsection \<open>The opening brace\<close>

text \<open>
  Claim C2, as stated: parsing \<open>a{\n  b c\n}\<close> with the default configuration yields
  \<open>[NodeEnter("a"), Field{"b","c"}, NodeLeave(1)]\<close> and no error.  It does not: \<open>{\<close> does not
  end a key, so the key is \<open>a{\<close>, the field is \<open>Field{"a{", "b c"}\<close>, and the closing brace is
  met at depth 0.
\<close>

theorem brace_glued_to_key_counterexample:
  "Parse (runes (''a{'' @ [CHR 0x0A] @ ''  b c'' @ [CHR 0x0A] @ ''}''), EOF) []
     = ([Some (Field ''a{'' ''b c'')], Some ErrUnexpectedNodeLeave)
   \<and> Parse (runes (''a{'' @ [CHR 0x0A] @ ''  b c'' @ [CHR 0x0A] @ ''}''), EOF) []
     \<noteq> ([Some (NodeEnter ''a''), Some (Field ''b'' ''c''), Some (NodeLeave 1)], None)"
  by code_simp

text \<open>
  Claim C2, amended.  Parsing \<open>a {\n  b c\n}\<close>, where white space separates the key from the
  brace, yields \<open>[NodeEnter("a"), Field{"b","c"}, NodeLeave(1)]\<close> and no error; and in
  general a \<open>{\<close> that is the first character after the white space that follows a key opens a
  block labelled by that key: \<open>readValue\<close> emits \<open>NodeEnter(key)\<close>, increments the depth and
  returns to \<open>readKey\<close>.
\<close>

theorem brace_after_key_opens_block:
  "Parse (runes (''a {'' @ [CHR 0x0A] @ ''  b c'' @ [CHR 0x0A] @ ''}''), EOF) []
     = ([Some (NodeEnter ''a''), Some (Field ''b'' ''c''), Some (NodeLeave 1)], None)
   \<and> (\<forall>p ws rest e key.
         set ws \<subseteq> {SPC, TAB, LF, CR} \<longrightarrow>
         readValue p (ws @ LBRACE # rest, e) key =
           (Some ReadKeyFn, Some (NodeEnter key), None,
            p\<lparr>depth := wrap64 (depth p + 1)\<rparr>, (rest, e)))"
proof -
  have "Parse (runes (''a {'' @ [CHR 0x0A] @ ''  b c'' @ [CHR 0x0A] @ ''}''), EOF) []
     = ([Some (NodeEnter ''a''), Some (Field ''b'' ''c''), Some (NodeLeave 1)], None)"
    by code_simp
  then show ?thesis using readValue_LBRACE by blast
qed

theorem brace_after_key_opens_block_witness:
  "readValue (NewParser []) ([SPC, LF] @ LBRACE # runes ''x'', EOF) ''a'' =
     (Some ReadKeyFn, Some (NodeEnter ''a''), None, NewParser [] \<lparr>depth := 1\<rparr>, (runes ''x'', EOF))"
proof -
  have "set [SPC, LF] \<subseteq> {SPC, TAB, LF, CR}" by simp
  with brace_after_key_opens_block
  have "readValue (NewParser []) ([SPC, LF] @ LBRACE # runes ''x'', EOF) ''a'' =
          (Some ReadKeyFn, Some (NodeEnter ''a''), None,
           NewParser [] \<lparr>depth := wrap64 (depth (NewParser []) + 1)\<rparr>, (runes ''x'', EOF))"
    by blast
  then show ?thesis by (simp add: NewParser_def Reset_def wrap64_def)
qed

subsection \<open>A closing brace at depth 0\<close>

lemma ReadLoop_ErrReader:
  "nxt p = Some (ErrReader x) \<Longrightarrow> ReadLoop p None None r = (None, Some x, p, r)"
  by (subst ReadLoop.simps, simp, subst ReadLoop.simps, simp)

text \<open>
  Claim C3.  A \<open>}\<close> met by \<open>readKey\<close> (after any leading white space) while the depth is 0
  produces no piece and the error \<open>ErrUnexpectedNodeLeave\<close>, and leaves the parser with the
  continuation \<open>errReader{ErrUnexpectedNodeLeave}\<close>.  In that state a call of \<open>Read\<close> with any
  source returns no piece and the same error, and changes neither the parser nor the source;
  so does every later call.
\<close>

theorem unexpected_leave_poisons:
  assumes "depth p = 0" and "nxt p = None \<or> nxt p = Some ReadKeyFn"
    and "set ws \<subseteq> {SPC, TAB, LF, CR}"
  shows "Read p (ws @ RBRACE # rest, e) =
           (None, Some ErrUnexpectedNodeLeave,
            p\<lparr>nxt := Some (ErrReader ErrUnexpectedNodeLeave)\<rparr>, (rest, e))
         \<and> (\<forall>r. Read (p\<lparr>nxt := Some (ErrReader ErrUnexpectedNodeLeave)\<rparr>) r =
                  (None, Some ErrUnexpectedNodeLeave,
                   p\<lparr>nxt := Some (ErrReader ErrUnexpectedNodeLeave)\<rparr>, r))"
proof -
  let ?q = "p\<lparr>nxt := Some ReadKeyFn\<rparr>"
  have rk: "readKey ?q (ws @ RBRACE # rest, e) =
          (Some (ErrReader ErrUnexpectedNodeLeave), None, Some ErrUnexpectedNodeLeave, ?q, (rest, e))"
    using assms(1) by (simp add: readKey_RBRACE [OF assms(3)] leave_def)
  have "ReadLoop ?q None None (ws @ RBRACE # rest, e) =
          (None, Some ErrUnexpectedNodeLeave,
            p\<lparr>nxt := Some (ErrReader ErrUnexpectedNodeLeave)\<rparr>, (rest, e))"
    by (subst ReadLoop.simps, simp add: rk, subst ReadLoop.simps, simp)
  moreover have "(if nxt p = None then p\<lparr>nxt := Some ReadKeyFn\<rparr> else p) = ?q"
    using assms(2) by auto
  ultimately have first: "Read p (ws @ RBRACE # rest, e) =
           (None, Some ErrUnexpectedNodeLeave,
            p\<lparr>nxt := Some (ErrReader ErrUnexpectedNodeLeave)\<rparr>, (rest, e))"
    by (simp only: Read_def)
  have "Read (p\<lparr>nxt := Some (ErrReader ErrUnexpectedNodeLeave)\<rparr>) r =
                  (None, Some ErrUnexpectedNodeLeave,
                   p\<lparr>nxt := Some (ErrReader ErrUnexpectedNodeLeave)\<rparr>, r)" for r
    by (simp add: Read_def ReadLoop_ErrReader)
  with first show ?thesis by blast
qed

theorem unexpected_leave_poisons_witness:
  "Read (NewParser []) (runes '' }x'', EOF) =
     (None, Some ErrUnexpectedNodeLeave,
      NewParser [] \<lparr>nxt := Some (ErrReader ErrUnexpectedNodeLeave)\<rparr>, (runes ''x'', EOF))
   \<and> Read (NewParser [] \<lparr>nxt := Some (ErrReader ErrUnexpectedNodeLeave)\<rparr>) (runes ''x'', EOF) =
     (None, Some ErrUnexpectedNodeLeave,
      NewParser [] \<lparr>nxt := Some (ErrReader ErrUnexpectedNodeLeave)\<rparr>, (runes ''x'', EOF))"
proof -
  have h1: "depth (NewParser []) = 0" by (simp add: NewParser_def Reset_def)
  have h2: "nxt (NewParser []) = None \<or> nxt (NewParser []) = Some ReadKeyFn"
    by (simp add: NewParser_def Reset_def)
  have h3: "set [SPC] \<subseteq> {SPC, TAB, LF, CR}" by simp
  from unexpected_leave_poisons [OF h1 h2 h3, of "runes ''x''" EOF]
  show ?thesis by (simp add: runes_def)
qed

subsection \<open>The nesting depth\<close>

text \<open>
  The parsers that sequences of calls of \<open>Read\<close> lead to: \<open>reach n p\<close> says that \<open>p\<close> is
  the state of a parser made by \<open>NewParser\<close> after \<open>n\<close> calls of \<open>Read\<close>, each on any source.
\<close>

inductive reach :: "nat \<Rightarrow> Parser \<Rightarrow> bool" where
  start: "reach 0 (NewParser configs)"
| step: "reach n p \<Longrightarrow> Read p r = (piece, err, p', r') \<Longrightarrow> reach (Suc n) p'"

text \<open>How one call may change the depth, given the piece it returns.\<close>

definition depthChange :: "Parser \<Rightarrow> Piece option \<Rightarrow> Parser \<Rightarrow> bool" where
  "depthChange p pc p' \<longleftrightarrow>
     (case pc of
        Some (NodeEnter k) \<Rightarrow> depth p' = depth p + 1
      | Some (NodeLeave d) \<Rightarrow> d = depth p \<and> 1 \<le> d \<and> depth p' = depth p - 1
      | _ \<Rightarrow> depth p' = depth p)"

lemma depthChange_cong:
  "depth q = depth p \<Longrightarrow> depth q' = depth p' \<Longrightarrow> depthChange q pc q' = depthChange p pc p'"
  by (simp add: depthChange_def split: option.splits Piece.splits)

lemma depth_apply_cfg: "depth (apply_cfg c q) = depth q"
  by (cases c) simp_all

lemma wrap64_id: "- (2 ^ 63) \<le> x \<Longrightarrow> x < 2 ^ 63 \<Longrightarrow> wrap64 x = x"
  by (simp add: wrap64_def)

lemma enter_depth:
  assumes "enter p key r = (n, pc, err, p', r')" "0 \<le> depth p" "depth p < 2 ^ 63 - 1"
  shows "depthChange p pc p'"
  using assms by (auto simp: enter_def depthChange_def wrap64_id)

lemma leave_depth:
  assumes "leave p r = (n, pc, err, p', r')" "0 \<le> depth p" "depth p < 2 ^ 63 - 1"
  shows "depthChange p pc p'"
  using assms by (auto simp: leave_def depthChange_def wrap64_id split: if_splits)

lemma readValue_depth:
  assumes "readValue p r key = (n, pc, err, p', r')" "0 \<le> depth p" "depth p < 2 ^ 63 - 1"
  shows "depthChange p pc p'"
proof -
  obtain c e r1 where rf: "readFirst r = (c, e, r1)" by (cases "readFirst r") auto
  obtain b c' e' r2 where vl: "valueLoop (keepSeqWhitespace p) False 0 (buf p) c e r1 = (b, c', e', r2)"
    by (cases "valueLoop (keepSeqWhitespace p) False 0 (buf p) c e r1") auto
  show ?thesis
  proof (cases "c = LBRACE \<and> \<not> (e \<noteq> None \<and> e \<noteq> Some EOF)")
    case True
    with assms(1) rf have "enter p key r1 = (n, pc, err, p', r')" by (auto simp: readValue_def)
    from enter_depth [OF this assms(2,3)] show ?thesis .
  next
    case False
    with assms(1) rf vl show ?thesis
      by (auto simp: readValue_def depthChange_def Let_def split: if_splits)
  qed
qed

lemma readKey_depth:
  assumes "readKey p r = (n, pc, err, p', r')" "0 \<le> depth p" "depth p < 2 ^ 63 - 1"
  shows "depthChange p pc p'"
proof -
  obtain c e r1 where rf: "readFirst r = (c, e, r1)" by (cases "readFirst r") auto
  obtain b c' e' r2 where kl: "keyLoop (keepSeqWhitespace p) False 0 (buf p) c e r1 = (b, c', e', r2)"
    by (cases "keyLoop (keepSeqWhitespace p) False 0 (buf p) c e r1") auto
  let ?stop = "e \<noteq> None \<and> e \<noteq> Some EOF"
  consider (err) "?stop" | (leave) "\<not> ?stop" "c = RBRACE" | (enter) "\<not> ?stop" "c = LBRACE"
    | (comment) "\<not> ?stop" "c = HASH" | (key) "\<not> ?stop" "c \<noteq> RBRACE" "c \<noteq> LBRACE" "c \<noteq> HASH"
    by blast
  then show ?thesis
  proof cases
    case err
    with assms(1) rf show ?thesis by (auto simp: readKey_def depthChange_def)
  next
    case leave
    with assms(1) rf have "leave p r1 = (n, pc, err, p', r')" by (auto simp: readKey_def)
    from leave_depth [OF this assms(2,3)] show ?thesis .
  next
    case enter
    with assms(1) rf have "enter p [] r1 = (n, pc, err, p', r')" by (auto simp: readKey_def)
    from enter_depth [OF this assms(2,3)] show ?thesis .
  next
    case comment
    with assms(1) rf show ?thesis by (auto simp: readKey_def depthChange_def)
  next
    case key
    let ?p = "p\<lparr>buf := []\<rparr>"
    show ?thesis
    proof (cases "(length b = 0 \<and> e' \<noteq> None) \<or> e' = Some EOF \<or> c' = HASH \<or> c' = BANG \<or> c' = SEMI")
      case True
      with assms(1) rf kl key show ?thesis
        by (auto simp: readKey_def depthChange_def Let_def split: if_splits)
    next
      case False
      with assms(1) rf kl key have "readValue ?p r2 b = (n, pc, err, p', r')"
        by (auto simp: readKey_def Let_def split: if_splits)
      from readValue_depth [OF this] assms(2,3) have "depthChange ?p pc p'" by simp
      then show ?thesis by (simp add: depthChange_cong [of ?p p p' p'])
    qed
  qed
qed

lemma read_depth:
  assumes "read k p r = (n, pc, err, p', r')" "0 \<le> depth p" "depth p < 2 ^ 63 - 1"
  shows "depthChange p pc p'"
proof (cases k)
  case ReadKeyFn
  with assms readKey_depth show ?thesis by simp
next
  case (ReadCommentFn nx)
  with assms(1) show ?thesis
    by (auto simp: readComment_def depthChange_def Let_def split: prod.splits if_splits)
next
  case (ErrReader x)
  with assms(1) show ?thesis by (auto simp: depthChange_def)
next
  case EofReader
  with assms(1) show ?thesis by (auto simp: depthChange_def)
qed

lemma ReadLoop_depth:
  "ReadLoop p piece err r = (piece', err', p', r') \<Longrightarrow> 0 \<le> depth p \<Longrightarrow> depth p < 2 ^ 63 - 1 \<Longrightarrow>
     (piece \<noteq> None \<longrightarrow> piece' = piece \<and> depth p' = depth p) \<and>
     (piece = None \<longrightarrow> depthChange p piece' p')"
proof (induction p piece err r rule: ReadLoop.induct)
  case (1 p piece err r)
  show ?case
  proof (cases "nxt p \<noteq> None \<and> piece = None \<and> err = None")
    case True
    obtain n pc1 e1 p1 r1 where rd: "read (the (nxt p)) p r = (n, pc1, e1, p1, r1)"
      by (cases "read (the (nxt p)) p r") auto
    from "1.prems" True rd have rl: "ReadLoop (p1\<lparr>nxt := n\<rparr>) pc1 e1 r1 = (piece', err', p', r')"
      by (subst (asm) ReadLoop.simps) simp
    note dc = read_depth [OF rd "1.prems"(2,3)]
    show ?thesis
    proof (cases pc1)
      case None
      with dc have d1: "depth p1 = depth p" by (simp add: depthChange_def)
      with "1.prems" have b: "0 \<le> depth (p1\<lparr>nxt := n\<rparr>)" "depth (p1\<lparr>nxt := n\<rparr>) < 2 ^ 63 - 1" by auto
      from "1.IH" [OF True rd [symmetric] refl refl refl rl b] None
      have "depthChange (p1\<lparr>nxt := n\<rparr>) piece' p'" by simp
      with d1 have "depthChange p piece' p'"
        by (simp add: depthChange_cong [of "p1\<lparr>nxt := n\<rparr>" p p' p'])
      with True show ?thesis by simp
    next
      case (Some pc)
      with rl have "piece' = pc1" "p' = p1\<lparr>nxt := n\<rparr>" by (subst (asm) ReadLoop.simps, simp)+
      with dc True show ?thesis by (simp add: depthChange_cong [of p p "p1\<lparr>nxt := n\<rparr>" p1])
    qed
  next
    case False
    with "1.prems" show ?thesis by (subst (asm) ReadLoop.simps) (auto simp: depthChange_def)
  qed
qed

lemma Read_depth:
  assumes "Read p r = (piece, err, p', r')" "0 \<le> depth p" "depth p < 2 ^ 63 - 1"
  shows "depthChange p piece p'"
proof -
  let ?q = "if nxt p = None then p\<lparr>nxt := Some ReadKeyFn\<rparr> else p"
  have d: "depth ?q = depth p" by simp
  with ReadLoop_depth [of ?q None None r piece err p' r'] assms
  have "depthChange ?q piece p'" by (simp add: Read_def)
  with d show ?thesis by (simp add: depthChange_cong [of ?q p p' p'])
qed

lemma depth_NewParser: "depth (NewParser configs) = 0"
proof -
  have "depth (fold apply_cfg configs q) = depth q" for q
    by (induction configs arbitrary: q) (simp_all add: depth_apply_cfg)
  then show ?thesis by (simp add: NewParser_def Reset_def)
qed

lemma reach_depth: "reach n p \<Longrightarrow> n < 2 ^ 63 \<Longrightarrow> 0 \<le> depth p \<and> depth p \<le> int n"
proof (induction rule: reach.induct)
  case (start configs)
  show ?case by (simp add: depth_NewParser)
next
  case (step n p r piece err p' r')
  then have b: "0 \<le> depth p" "depth p \<le> int n" "int n < 2 ^ 63 - 1" by auto
  then have "depth p < 2 ^ 63 - 1" by linarith
  from Read_depth [OF step.hyps(2) b(1) this] b show ?case
    by (auto simp: depthChange_def split: option.splits Piece.splits)
qed

text \<open>
  Claim C4.  Along every sequence of calls of \<open>Read\<close> on a new parser, the depth is never
  negative, and a call changes it only by emitting \<open>NodeEnter\<close> (one more) or \<open>NodeLeave\<close>
  (one less); the \<open>NodeLeave\<close> carries the depth before the decrement, which is at least 1.
  The depth is a 64-bit Go \<open>int\<close>, so the statement is for sequences of fewer than
  \<open>2^63 - 1\<close> calls, within which the increment cannot wrap.
\<close>

theorem depth_changes_only_by_enter_and_leave:
  assumes "reach n p" and "n < 2 ^ 63 - 1" and "Read p r = (piece, err, p', r')"
  shows "0 \<le> depth p \<and> 0 \<le> depth p' \<and>
         (case piece of
            Some (NodeEnter k) \<Rightarrow> depth p' = depth p + 1
          | Some (NodeLeave d) \<Rightarrow> d = depth p \<and> 1 \<le> d \<and> depth p' = depth p - 1
          | _ \<Rightarrow> depth p' = depth p)"
proof -
  from assms(2) have n: "n < 2 ^ 63" "Suc n < 2 ^ 63" by auto
  from reach_depth [OF assms(1) n(1)] assms(2) have b: "0 \<le> depth p" "depth p < 2 ^ 63 - 1"
    by auto
  have "reach (Suc n) p'" using assms(1,3) by (rule reach.step)
  from reach_depth [OF this n(2)] have "0 \<le> depth p'" by simp
  with b Read_depth [OF assms(3) b] show ?thesis by (simp add: depthChange_def)
qed

theorem depth_changes_only_by_enter_and_leave_witness:
  "depth (NewParser []) = 0 \<and>
   Read (NewParser []) (runes ''{'', EOF) =
     (Some (NodeEnter []), None, NewParser [] \<lparr>depth := 1, nxt := Some ReadKeyFn\<rparr>, ([], EOF)) \<and>
   depth (NewParser [] \<lparr>depth := 1, nxt := Some ReadKeyFn\<rparr>) = depth (NewParser []) + 1"
proof -
  have h1: "reach 0 (NewParser [])" by (rule reach.start)
  have h2: "(0::nat) < 2 ^ 63 - 1" by simp
  have h3: "Read (NewParser []) (runes ''{'', EOF) =
     (Some (NodeEnter []), None, NewParser [] \<lparr>depth := 1, nxt := Some ReadKeyFn\<rparr>, ([], EOF))"
    by code_simp
  from depth_changes_only_by_enter_and_leave [OF h1 h2 h3] h3 show ?thesis by simp
qed

subsection \<open>Comments\<close>

text \<open>
  Claim C7.  The claim is that with \<open>ReadComments\<close> disabled no \<open>Comment\<close> is produced and no
  empty turn is returned to the caller in its place.  When a \<open>#\<close> ends a key, \<open>readKey\<close> passes
  its still unset variable \<open>next\<close> (\<open>nil\<close>) to \<open>readComment\<close> as the continuation, where the
  other two places pass \<open>readFn(p.readKey)\<close>.  The comment closure then returns a \<open>nil\<close>
  continuation, a \<open>nil\<close> piece and a \<open>nil\<close> error, the loop of \<open>Read\<close> stops on the \<open>nil\<close>
  continuation, and the caller gets an empty turn: on the input \<open>a#c\n\<close> the second call of
  \<open>Read\<close> returns neither piece nor error, and \<open>Parse\<close> appends a \<open>nil\<close> piece.  A comment after
  a value (\<open>a b#c\n\<close>) or at the start of a line (\<open>#c\n\<close>) leaves no such turn.
\<close>

theorem comment_after_key_empty_turn:
  "Parse (runes (''a#c'' @ [CHR 0x0A]), EOF) [] = ([Some (Field ''a'' []), None], None)
   \<and> Read (NewParser []) (runes (''a#c'' @ [CHR 0x0A]), EOF)
       = (Some (Field ''a'' []), None, NewParser [] \<lparr>nxt := Some (ReadCommentFn None)\<rparr>,
          (runes (''c'' @ [CHR 0x0A]), EOF))
   \<and> Read (NewParser [] \<lparr>nxt := Some (ReadCommentFn None)\<rparr>) (runes (''c'' @ [CHR 0x0A]), EOF)
       = (None, None, NewParser [], ([], EOF))
   \<and> Parse (runes (''a b#c'' @ [CHR 0x0A]), EOF) [] = ([Some (Field ''a'' ''b'')], None)
   \<and> Parse (runes (''#c'' @ [CHR 0x0A]), EOF) [] = ([], None)"
  by code_simp

subsection \<open>Trailing white space of a value\<close>

lemma TrimRight_split:
  "\<exists>t. b = TrimRight b cs @ t \<and> set t \<subseteq> set cs \<and>
       (TrimRight b cs = [] \<or> last (TrimRight b cs) \<notin> set cs)"
proof -
  let ?P = "\<lambda>c. c \<in> set cs"
  let ?t = "rev (takeWhile ?P (rev b))"
  have "TrimRight b cs @ ?t = rev (takeWhile ?P (rev b) @ dropWhile ?P (rev b))"
    by (simp only: TrimRight_def rev_append)
  also have "\<dots> = b" by (simp only: takeWhile_dropWhile_id rev_rev_ident)
  finally have 1: "b = TrimRight b cs @ ?t" by simp
  have 2: "set ?t \<subseteq> set cs" by (auto dest: set_takeWhileD)
  have 3: "TrimRight b cs = [] \<or> last (TrimRight b cs) \<notin> set cs"
  proof (cases "dropWhile ?P (rev b)")
    case Nil
    then show ?thesis by (simp add: TrimRight_def)
  next
    case (Cons x xs)
    then have "\<not> ?P (hd (dropWhile ?P (rev b)))" using hd_dropWhile [of ?P "rev b"] by simp
    with Cons show ?thesis by (simp add: TrimRight_def)
  qed
  from 1 2 3 show ?thesis by blast
qed

text \<open>
  Claim C8.  When \<open>readValue\<close> has accumulated the buffer \<open>b\<close> (its accumulation loop has
  ended), it emits \<open>Field{key, v}\<close> where, with \<open>TrimTrailingWhitespace\<close> enabled, \<open>v\<close> is \<open>b\<close>
  without exactly its trailing run of space, tab, CR and LF (\<open>b = v @ t\<close>, \<open>t\<close> made of these four
  only, and \<open>v\<close> not ending in one of them), and with it disabled \<open>v\<close> is \<open>b\<close> itself.
\<close>

theorem trim_trailing_whitespace:
  assumes "readFirst r = (c, err, r1)"
    and "err = None \<or> err = Some EOF" and "c \<noteq> LBRACE" and "c \<noteq> HASH"
    and "valueLoop (keepSeqWhitespace p) False 0 (buf p) c err r1 = (b, c', err', r2)"
  shows "\<exists>n v. readValue p r key = (n, Some (Field key v), err', p\<lparr>buf := []\<rparr>, r2) \<and>
           (if keepTrailingWhitespace p then v = b
            else \<exists>t. b = v @ t \<and> set t \<subseteq> {CHR '' '', CHR 0x0A, CHR 0x09, CHR 0x0D} \<and>
                     (v = [] \<or> last v \<notin> {CHR '' '', CHR 0x0A, CHR 0x09, CHR 0x0D}))"
proof -
  let ?v = "if 0 < length b then (if \<not> keepTrailingWhitespace p then TrimRight b trimCutset else b) else []"
  have rv: "\<exists>n. readValue p r key = (n, Some (Field key ?v), err', p\<lparr>buf := []\<rparr>, r2)"
    using assms by (auto simp: readValue_def Let_def)
  have cut: "set trimCutset = {CHR '' '', CHR 0x0A, CHR 0x09, CHR 0x0D}"
    by (simp add: trimCutset_def)
  have v: "if keepTrailingWhitespace p then ?v = b
            else \<exists>t. b = ?v @ t \<and> set t \<subseteq> {CHR '' '', CHR 0x0A, CHR 0x09, CHR 0x0D} \<and>
                     (?v = [] \<or> last ?v \<notin> {CHR '' '', CHR 0x0A, CHR 0x09, CHR 0x0D})"
  proof (cases "keepTrailingWhitespace p")
    case True
    then show ?thesis by simp
  next
    case False
    have e: "?v = TrimRight b trimCutset" using False by (simp add: TrimRight_def)
    from TrimRight_split [of b trimCutset] False show ?thesis
      unfolding e cut by simp
  qed
  from rv v show ?thesis by blast
qed

theorem trim_trailing_whitespace_witness:
  "(\<exists>n v. readValue (NewParser []) (runes (''v w   '' @ [CHR 0x09, CHR 0x0A]), EOF) ''k''
             = (n, Some (Field ''k'' v), None, NewParser [], ([], EOF)) \<and>
           (\<exists>t. ''v w '' = v @ t \<and> set t \<subseteq> {CHR '' '', CHR 0x0A, CHR 0x09, CHR 0x0D} \<and>
                     (v = [] \<or> last v \<notin> {CHR '' '', CHR 0x0A, CHR 0x09, CHR 0x0D})))
   \<and> readValue (NewParser []) (runes (''v w   '' @ [CHR 0x09, CHR 0x0A]), EOF) ''k''
        = (Some ReadKeyFn, Some (Field ''k'' ''v w''), None, NewParser [], ([], EOF))
   \<and> readValue (NewParser [TrimWhitespace False]) (runes (''v w   '' @ [CHR 0x09, CHR 0x0A]), EOF) ''k''
        = (Some ReadKeyFn, Some (Field ''k'' ''v w ''), None, NewParser [TrimWhitespace False], ([], EOF))"
proof -
  let ?r = "(runes (''v w   '' @ [CHR 0x09, CHR 0x0A]), EOF)"
  let ?r1 = "(runes ('' w   '' @ [CHR 0x09, CHR 0x0A]), EOF)"
  have h1: "readFirst ?r = (118, None, ?r1)" by code_simp
  have h2: "None = None \<or> None = Some EOF" by simp
  have h3: "(118::int) \<noteq> LBRACE" "(118::int) \<noteq> HASH" by simp_all
  have h4: "valueLoop (keepSeqWhitespace (NewParser [])) False 0 (buf (NewParser [])) 118 None ?r1
              = (''v w '', LF, None, ([], EOF))" by code_simp
  have k: "\<not> keepTrailingWhitespace (NewParser [])" "NewParser [] \<lparr>buf := []\<rparr> = NewParser []"
    by (simp_all add: NewParser_def Reset_def)
  have e1: "readValue (NewParser []) ?r ''k''
        = (Some ReadKeyFn, Some (Field ''k'' ''v w''), None, NewParser [], ([], EOF))" by code_simp
  have e2: "readValue (NewParser [TrimWhitespace False]) ?r ''k''
        = (Some ReadKeyFn, Some (Field ''k'' ''v w ''), None, NewParser [TrimWhitespace False], ([], EOF))"
    by code_simp
  from trim_trailing_whitespace [OF h1 h2 h3 h4, of "''k''"] k e1 e2 show ?thesis by simp
qed

subsection \<open>Runs of white space\<close>

text \<open>The bytes of a sequence of code points (Go's \<open>string(runes)\<close>).\<close>

definition encodeRunes :: "rune list \<Rightarrow> string" where
  "encodeRunes xs = concat (map encodeRune xs)"

text \<open>
  The words of the claim, as a function on code points: in every run of consecutive white
  space only the first character is kept.  \<open>l\<close> is the character before the sequence.
\<close>

fun collapseRuns :: "rune \<Rightarrow> rune list \<Rightarrow> rune list" where
  "collapseRuns l [] = []"
| "collapseRuns l (c # cs) =
     (if IsSpace l \<and> IsSpace c then collapseRuns l cs else c # collapseRuns c cs)"

text \<open>A sequence of code points without its carriage returns.\<close>

abbreviation dropCR :: "rune list \<Rightarrow> rune list" where
  "dropCR xs \<equiv> filter (\<lambda>c. c \<noteq> CR) xs"

lemma encodeRunes_Cons: "encodeRunes (c # cs) = encodeRune c @ encodeRunes cs"
  by (simp add: encodeRunes_def)

lemma encodeRunes_Nil: "encodeRunes [] = []"
  by (simp add: encodeRunes_def)

lemma encodeRune_LF: "encodeRune LF = [CHR 0x0A]"
  by code_simp

lemma valueLoop_CR_any:
  "valueLoop k esc l b CR None r =
     (case ReadRune r of (c, err, r') \<Rightarrow> valueLoop k esc l b c err r')"
  by (subst valueLoop.simps) (simp add: valueBody_def)

lemma valueLoop_CR:
  "valueLoop k esc l b CR None (x # xs, e) = valueLoop k esc l b x None (xs, e)"
  by (simp add: valueLoop_CR_any)

lemma keyLoop_CR_escaped:
  "keyLoop k True l b CR None r =
     (case ReadRune r of (c, err, r') \<Rightarrow> keyLoop k True l b c err r')"
  by (subst keyLoop.simps) (simp add: keyBody_def)

lemma valueLoop_plain_step:
  assumes "c \<notin> {BSLASH, CR, LF, SEMI, HASH}"
  shows "valueLoop k False l b c None r =
           (case ReadRune r of
              (c', err', r') \<Rightarrow>
                if \<not> k \<and> IsSpace l \<and> IsSpace c then valueLoop k False l b c' err' r'
                else valueLoop k False c (b @ encodeRune c) c' err' r')"
  using assms
  by (subst valueLoop.simps) (simp add: valueBody_def WriteRune_def split: prod.splits)

lemma valueLoop_plain:
  assumes "\<forall>x\<in>set (c # cs). x \<notin> {BSLASH, LF, SEMI, HASH}"
  shows "valueLoop k False l b c None (cs @ rest, e) =
           (case ReadRune (rest, e) of
              (c', err', r') \<Rightarrow>
                valueLoop k False
                  (last (l # (if k then dropCR (c # cs) else collapseRuns l (dropCR (c # cs)))))
                  (b @ encodeRunes (if k then dropCR (c # cs) else collapseRuns l (dropCR (c # cs))))
                  c' err' r')"
  using assms
proof (induction cs arbitrary: c l b)
  case Nil
  show ?case
  proof (cases "c = CR")
    case True
    then show ?thesis by (simp add: valueLoop_CR_any encodeRunes_Nil)
  next
    case False
    with Nil have "c \<notin> {BSLASH, CR, LF, SEMI, HASH}" by simp
    from valueLoop_plain_step [OF this, of k l b "(rest, e)"] False show ?thesis
      by (simp add: encodeRunes_Cons encodeRunes_Nil split: prod.splits)
  qed
next
  case (Cons x xs)
  then have xs: "\<forall>y\<in>set (x # xs). y \<notin> {BSLASH, LF, SEMI, HASH}" by simp
  show ?case
  proof (cases "c = CR")
    case True
    with Cons.IH [OF xs, of l b] show ?thesis by (simp add: valueLoop_CR)
  next
    case False
    with Cons.prems have c: "c \<notin> {BSLASH, CR, LF, SEMI, HASH}" by simp
    show ?thesis
    proof (cases "\<not> k \<and> IsSpace l \<and> IsSpace c")
      case True
      with valueLoop_plain_step [OF c, of k l b "(x # xs @ rest, e)"] Cons.IH [OF xs, of l b] False
      show ?thesis by simp
    next
      case skip: False
      with valueLoop_plain_step [OF c, of k l b "(x # xs @ rest, e)"]
        Cons.IH [OF xs, of c "b @ encodeRune c"] False
      show ?thesis by (auto simp: encodeRunes_Cons)
    qed
  qed
qed

lemma keyLoop_plain_step:
  assumes "c \<notin> {BSLASH, SPC, BANG, SEMI, TAB, LF, CR, HASH}"
  shows "keyLoop k False l b c None r =
           (case ReadRune r of
              (c', err', r') \<Rightarrow>
                if \<not> k \<and> IsSpace l \<and> IsSpace c then keyLoop k False l b c' err' r'
                else keyLoop k False c (b @ encodeRune c) c' err' r')"
  using assms
  by (subst keyLoop.simps) (simp add: keyBody_def WriteRune_def split: prod.splits)

lemma keyLoop_plain:
  assumes "\<forall>x\<in>set (c # cs). x \<notin> {BSLASH, SPC, BANG, SEMI, TAB, LF, CR, HASH}"
  shows "keyLoop k False l b c None (cs @ rest, e) =
           (case ReadRune (rest, e) of
              (c', err', r') \<Rightarrow>
                keyLoop k False
                  (last (l # (if k then c # cs else collapseRuns l (c # cs))))
                  (b @ encodeRunes (if k then c # cs else collapseRuns l (c # cs)))
                  c' err' r')"
  using assms
proof (induction cs arbitrary: c l b)
  case Nil
  then have "c \<notin> {BSLASH, SPC, BANG, SEMI, TAB, LF, CR, HASH}" by simp
  from keyLoop_plain_step [OF this, of k l b "(rest, e)"] show ?case
    by (simp add: encodeRunes_Cons encodeRunes_Nil split: prod.splits)
next
  case (Cons x xs)
  then have c: "c \<notin> {BSLASH, SPC, BANG, SEMI, TAB, LF, CR, HASH}"
    and xs: "\<forall>y\<in>set (x # xs). y \<notin> {BSLASH, SPC, BANG, SEMI, TAB, LF, CR, HASH}" by simp_all
  show ?case
  proof (cases "\<not> k \<and> IsSpace l \<and> IsSpace c")
    case True
    with keyLoop_plain_step [OF c, of k l b "(x # xs @ rest, e)"] Cons.IH [OF xs, of l b]
    show ?thesis by simp
  next
    case False
    with keyLoop_plain_step [OF c, of k l b "(x # xs @ rest, e)"]
      Cons.IH [OF xs, of c "b @ encodeRune c"]
    show ?thesis by (auto simp: encodeRunes_Cons)
  qed
qed

lemma valueLoop_end:
  "t = LF \<or> t = SEMI \<or> t = HASH \<Longrightarrow> valueLoop k False l b t None r = (b, t, None, r)"
  by (subst valueLoop.simps) auto

lemma keyLoop_end:
  "t \<in> {SPC, BANG, SEMI, TAB, LF, CR, HASH} \<Longrightarrow> keyLoop k False l b t None r = (b, t, None, r)"
  by (subst keyLoop.simps) auto

lemma TrimRight_Nil: "TrimRight [] cs = []"
  by (simp add: TrimRight_def)

lemma readValue_plain:
  assumes plain: "\<forall>x\<in>set xs. x \<notin> {BSLASH, LF, SEMI, HASH}"
    and ne: "xs \<noteq> []" and hd: "hd xs \<notin> {SPC, TAB, CR, LBRACE}"
    and b: "buf p = []" and t: "t = LF \<or> t = SEMI"
  shows "readValue p (xs @ t # rest, e) key =
           (Some ReadKeyFn,
            Some (Field key
              (let b = encodeRunes (if keepSeqWhitespace p then dropCR xs
                                    else collapseRuns 0 (dropCR xs))
               in if keepTrailingWhitespace p then b else TrimRight b trimCutset)),
            None, p\<lparr>buf := []\<rparr>, (rest, e))"
proof -
  from ne obtain c cs where xs: "xs = c # cs" by (cases xs) auto
  with plain hd have c: "c \<notin> {SPC, TAB, LF, CR}" "c \<noteq> LBRACE" "c \<noteq> HASH" by auto
  have "set ([]::rune list) \<subseteq> {SPC, TAB, LF, CR}" by simp
  from skipSpace_first [OF this c(1), of "cs @ t # rest" e]
  have rf: "readFirst (xs @ t # rest, e) = (c, None, (cs @ t # rest, e))" by (simp add: xs)
  let ?ys = "if keepSeqWhitespace p then dropCR (c # cs) else collapseRuns 0 (dropCR (c # cs))"
  from t have t': "t \<noteq> HASH" and t'': "t = LF \<or> t = SEMI \<or> t = HASH" by auto
  have "valueLoop (keepSeqWhitespace p) False 0 (buf p) c None (cs @ t # rest, e)
          = valueLoop (keepSeqWhitespace p) False (last (0 # ?ys)) (buf p @ encodeRunes ?ys)
              t None (rest, e)"
    using valueLoop_plain [OF plain [unfolded xs], of "keepSeqWhitespace p" 0 "buf p" "t # rest" e]
    by simp
  also have "\<dots> = (buf p @ encodeRunes ?ys, t, None, (rest, e))"
    by (rule valueLoop_end [OF t''])
  finally have vl: "valueLoop (keepSeqWhitespace p) False 0 (buf p) c None (cs @ t # rest, e)
              = (encodeRunes ?ys, t, None, (rest, e))"
    by (simp only: b append_Nil)
  show ?thesis
    using rf vl c t' by (simp add: readValue_def Let_def xs TrimRight_Nil)
qed

lemma readKey_plain:
  assumes plain: "\<forall>x\<in>set xs. x \<notin> {BSLASH, SPC, BANG, SEMI, TAB, LF, CR, HASH}"
    and ne: "xs \<noteq> []" and hd: "hd xs \<notin> {LBRACE, RBRACE}"
    and b: "buf p = []"
  shows "readKey p (xs @ BANG # rest, e) =
           (Some ReadKeyFn,
            Some (Field (encodeRunes (if keepSeqWhitespace p then xs else collapseRuns 0 xs)) []),
            None, p\<lparr>buf := []\<rparr>, (rest, e))"
proof -
  from ne obtain c cs where xs: "xs = c # cs" by (cases xs) auto
  with plain hd have c: "c \<notin> {SPC, TAB, LF, CR}" "c \<noteq> LBRACE" "c \<noteq> RBRACE" "c \<noteq> HASH" by auto
  have "set ([]::rune list) \<subseteq> {SPC, TAB, LF, CR}" by simp
  from skipSpace_first [OF this c(1), of "cs @ BANG # rest" e]
  have rf: "readFirst (xs @ BANG # rest, e) = (c, None, (cs @ BANG # rest, e))" by (simp add: xs)
  let ?ys = "if keepSeqWhitespace p then c # cs else collapseRuns 0 (c # cs)"
  have "keyLoop (keepSeqWhitespace p) False 0 (buf p) c None (cs @ BANG # rest, e)
          = keyLoop (keepSeqWhitespace p) False (last (0 # ?ys)) (buf p @ encodeRunes ?ys)
              BANG None (rest, e)"
    using keyLoop_plain [OF plain [unfolded xs], of "keepSeqWhitespace p" 0 "buf p" "BANG # rest" e]
    by simp
  also have "\<dots> = (buf p @ encodeRunes ?ys, BANG, None, (rest, e))"
    by (rule keyLoop_end) simp
  finally have kl: "keyLoop (keepSeqWhitespace p) False 0 (buf p) c None (cs @ BANG # rest, e)
              = (encodeRunes ?ys, BANG, None, (rest, e))"
    by (simp only: b append_Nil)
  show ?thesis
    using rf kl c by (simp add: readKey_def Let_def xs)
qed

lemma valueLoop_escaped_step:
  assumes "c \<noteq> CR" "c \<noteq> LF"
  shows "valueLoop k True l b c None r =
           (case ReadRune r of
              (c', err', r') \<Rightarrow>
                valueLoop k False (unescape c) (b @ encodeRune (unescape c)) c' err' r')"
  using assms by (subst valueLoop.simps) (simp add: valueBody_def WriteRune_def Let_def)

lemma keyLoop_escaped_step:
  assumes "c \<noteq> CR" "c \<noteq> LF"
  shows "keyLoop k True l b c None r =
           (case ReadRune r of
              (c', err', r') \<Rightarrow>
                keyLoop k False (unescape c) (b @ encodeRune (unescape c)) c' err' r')"
  using assms by (subst keyLoop.simps) (simp add: keyBody_def WriteRune_def Let_def)

lemma valueLoop_escaped_LF:
  "valueLoop k True l b LF None r =
     (case ReadRune r of
        (c', err', r') \<Rightarrow>
          valueLoop k False LF ((if k then b else chompBuffer b) @ [CHR 0x0A]) c' err' r')"
  by (subst valueLoop.simps) (simp add: valueBody_def WriteRune_def Let_def encodeRune_LF)

lemma keyLoop_escaped_LF:
  "keyLoop k True l b LF None r =
     (case ReadRune r of
        (c', err', r') \<Rightarrow>
          keyLoop k False LF ((if k then b else chompBuffer b) @ [CHR 0x0A]) c' err' r')"
  by (subst keyLoop.simps) (simp add: keyBody_def WriteRune_def Let_def encodeRune_LF)

lemma chomp_rev_dropWhile:
  "chomp_rev bs = dropWhile (\<lambda>c. IsSpace (of_char c) \<and> (of_char c :: rune) \<noteq> LF) bs"
  by (induction bs) auto

lemma chompBuffer_split:
  "\<exists>t. b = chompBuffer b @ t \<and>
       (\<forall>c\<in>set t. IsSpace (of_char c) \<and> (of_char c :: rune) \<noteq> LF) \<and>
       (chompBuffer b = [] \<or> (of_char (last (chompBuffer b)) :: rune) = LF \<or>
        \<not> IsSpace (of_char (last (chompBuffer b))))"
proof -
  let ?P = "\<lambda>c. IsSpace (of_char c) \<and> (of_char c :: rune) \<noteq> LF"
  let ?t = "rev (takeWhile ?P (rev b))"
  have cb: "chompBuffer b = rev (dropWhile ?P (rev b))"
    by (simp add: chompBuffer_def chomp_rev_dropWhile)
  have "chompBuffer b @ ?t = rev (takeWhile ?P (rev b) @ dropWhile ?P (rev b))"
    by (simp only: cb rev_append)
  also have "\<dots> = b" by (simp only: takeWhile_dropWhile_id rev_rev_ident)
  finally have 1: "b = chompBuffer b @ ?t" by simp
  have 2: "\<forall>c\<in>set ?t. ?P c" by (auto dest: set_takeWhileD)
  have 3: "chompBuffer b = [] \<or> \<not> ?P (last (chompBuffer b))"
  proof (cases "dropWhile ?P (rev b)")
    case Nil
    then show ?thesis by (simp add: cb)
  next
    case (Cons x xs)
    then have "\<not> ?P (hd (dropWhile ?P (rev b)))" using hd_dropWhile [of ?P "rev b"] by simp
    with Cons show ?thesis by (simp add: cb)
  qed
  from 1 2 3 show ?thesis by blast
qed

lemma collapseRuns_skip:
  "IsSpace a \<Longrightarrow> \<forall>x\<in>set ws. IsSpace x \<Longrightarrow> collapseRuns a (ws @ zs) = collapseRuns a zs"
  by (induction ws) simp_all

lemma collapseRuns_run:
  assumes "\<not> IsSpace l" "IsSpace a" "\<forall>x\<in>set ws. IsSpace x" "\<not> IsSpace y"
  shows "collapseRuns l (a # ws @ y # xs) = a # y # collapseRuns y xs"
  using assms by (simp add: collapseRuns_skip)

text \<open>
  Claim C6, as stated: with \<open>CompressWhitespace\<close> enabled every run of consecutive white
  space in an accumulated key or value collapses to a single character, also when the
  characters come from escape decoding, and with it disabled the run is kept verbatim.
  Neither holds.  A decoded character jumps to the label \<open>skipCompressCheck\<close> and is always
  written: with the default configuration the value \<open>a\t\tb\<close> (two escapes) keeps both tabs,
  and so does the key.  An unescaped CR is discarded before the test, whatever the
  configuration: with compression and trimming disabled the value \<open>a\<close>, space, CR, space, \<open>b\<close>
  comes out with its two spaces and no CR, and with the default configuration the run of
  two CRs in \<open>a\<close>, CR, CR, \<open>b\<close> collapses to nothing.
\<close>

theorem escaped_whitespace_not_compressed_counterexample:
  "Parse (runes (''k a'' @ [CHR 0x5C] @ ''t'' @ [CHR 0x5C] @ ''tb'' @ [CHR 0x0A]), EOF) []
     = ([Some (Field ''k'' [CHR ''a'', CHR 0x09, CHR 0x09, CHR ''b''])], None)
   \<and> Parse (runes (''a'' @ [CHR 0x5C] @ ''t'' @ [CHR 0x5C] @ ''tb!''), EOF) []
     = ([Some (Field [CHR ''a'', CHR 0x09, CHR 0x09, CHR ''b''] [])], None)
   \<and> Parse (runes (''k a '' @ [CHR 0x0D] @ '' b'' @ [CHR 0x0A]), EOF)
        [CompressWhitespace False, TrimWhitespace False]
     = ([Some (Field ''k'' ''a  b'')], None)
   \<and> Parse (runes (''k a'' @ [CHR 0x0D, CHR 0x0D] @ ''b'' @ [CHR 0x0A]), EOF) []
     = ([Some (Field ''k'' ''ab'')], None)"
  by code_simp

text \<open>
  Claim C6, amended.  A carriage return read from the source is discarded in the accumulation
  of a value, whatever the configuration and whether or not a backslash is pending; in a key
  it ends the key, unless a backslash is pending, in which case it is discarded too.  With
  \<open>CompressWhitespace\<close> enabled, every other unescaped white-space character that follows a
  white-space character (the character last written, decoded or not) is dropped, so that a
  run of unescaped white space collapses to its first character other than CR (\<open>collapseRuns\<close>
  of the run without its CRs); a character produced by escape decoding is always written,
  whatever precedes it; and before an escaped line feed (backslash, line feed) the whole run
  of white space other than LF at the end of the buffer is removed (\<open>chompBuffer\<close>), after
  which the line feed is written.  With it disabled every character other than such a
  carriage return is written as it comes, and nothing is removed before an escaped line feed.

  This is stated for a whole value and a whole key made of unescaped characters; for any
  stretch of unescaped characters inside a value or a key, from any state \<open>l\<close>, \<open>b\<close> of the
  loop and whatever follows the stretch (another character or the end of the source); for
  one turn of either loop on an escaped character, on an escaped line feed and on a carriage
  return; and with what \<open>chompBuffer\<close> (on the bytes of the buffer, each read as a code point)
  and \<open>collapseRuns\<close> compute.
\<close>

theorem compress_whitespace:
  "(\<forall>(p::Parser) xs t rest e key.
      (\<forall>x\<in>set xs. x \<notin> {BSLASH, LF, SEMI, HASH}) \<and> xs \<noteq> [] \<and>
      hd xs \<notin> {SPC, TAB, CR, LBRACE} \<and> buf p = [] \<and> (t = LF \<or> t = SEMI) \<longrightarrow>
      readValue p (xs @ t # rest, e) key =
        (Some ReadKeyFn,
         Some (Field key
           (let b = encodeRunes (if keepSeqWhitespace p then dropCR xs
                                 else collapseRuns 0 (dropCR xs))
            in if keepTrailingWhitespace p then b else TrimRight b trimCutset)),
         None, p\<lparr>buf := []\<rparr>, (rest, e)))
   \<and> (\<forall>(p::Parser) xs rest e.
      (\<forall>x\<in>set xs. x \<notin> {BSLASH, SPC, BANG, SEMI, TAB, LF, CR, HASH}) \<and> xs \<noteq> [] \<and>
      hd xs \<notin> {LBRACE, RBRACE} \<and> buf p = [] \<longrightarrow>
      readKey p (xs @ BANG # rest, e) =
        (Some ReadKeyFn,
         Some (Field (encodeRunes (if keepSeqWhitespace p then xs else collapseRuns 0 xs)) []),
         None, p\<lparr>buf := []\<rparr>, (rest, e)))
   \<and> (\<forall>k l b c cs rest e.
      (\<forall>x\<in>set (c # cs). x \<notin> {BSLASH, LF, SEMI, HASH}) \<longrightarrow>
      valueLoop k False l b c None (cs @ rest, e) =
        (case ReadRune (rest, e) of
           (c', err', r') \<Rightarrow>
             valueLoop k False
               (last (l # (if k then dropCR (c # cs) else collapseRuns l (dropCR (c # cs)))))
               (b @ encodeRunes (if k then dropCR (c # cs) else collapseRuns l (dropCR (c # cs))))
               c' err' r'))
   \<and> (\<forall>k l b c cs rest e.
      (\<forall>x\<in>set (c # cs). x \<notin> {BSLASH, SPC, BANG, SEMI, TAB, LF, CR, HASH}) \<longrightarrow>
      keyLoop k False l b c None (cs @ rest, e) =
        (case ReadRune (rest, e) of
           (c', err', r') \<Rightarrow>
             keyLoop k False
               (last (l # (if k then c # cs else collapseRuns l (c # cs))))
               (b @ encodeRunes (if k then c # cs else collapseRuns l (c # cs)))
               c' err' r'))
   \<and> (\<forall>k l b c r. c \<noteq> CR \<and> c \<noteq> LF \<longrightarrow>
        valueLoop k True l b c None r =
          (case ReadRune r of
             (c', err', r') \<Rightarrow>
               valueLoop k False (unescape c) (b @ encodeRune (unescape c)) c' err' r'))
   \<and> (\<forall>k l b c r. c \<noteq> CR \<and> c \<noteq> LF \<longrightarrow>
        keyLoop k True l b c None r =
          (case ReadRune r of
             (c', err', r') \<Rightarrow>
               keyLoop k False (unescape c) (b @ encodeRune (unescape c)) c' err' r'))
   \<and> (\<forall>k l b r.
        valueLoop k True l b LF None r =
          (case ReadRune r of
             (c', err', r') \<Rightarrow>
               valueLoop k False LF ((if k then b else chompBuffer b) @ [CHR 0x0A]) c' err' r'))
   \<and> (\<forall>k l b r.
        keyLoop k True l b LF None r =
          (case ReadRune r of
             (c', err', r') \<Rightarrow>
               keyLoop k False LF ((if k then b else chompBuffer b) @ [CHR 0x0A]) c' err' r'))
   \<and> (\<forall>k esc l b r.
        valueLoop k esc l b CR None r =
          (case ReadRune r of (c', err', r') \<Rightarrow> valueLoop k esc l b c' err' r'))
   \<and> (\<forall>k l b r.
        keyLoop k True l b CR None r =
          (case ReadRune r of (c', err', r') \<Rightarrow> keyLoop k True l b c' err' r'))
   \<and> (\<forall>k l b r. keyLoop k False l b CR None r = (b, CR, None, r))
   \<and> (\<forall>b. \<exists>t. b = chompBuffer b @ t \<and>
        (\<forall>c\<in>set t. IsSpace (of_char c) \<and> (of_char c :: rune) \<noteq> LF) \<and>
        (chompBuffer b = [] \<or> (of_char (last (chompBuffer b)) :: rune) = LF \<or>
         \<not> IsSpace (of_char (last (chompBuffer b)))))
   \<and> (\<forall>l a ws y xs.
        \<not> IsSpace l \<and> IsSpace a \<and> (\<forall>x\<in>set ws. IsSpace x) \<and> \<not> IsSpace y \<longrightarrow>
        collapseRuns l (a # ws @ y # xs) = a # y # collapseRuns y xs)"
proof (intro conjI allI impI)
  fix p :: Parser and xs t rest e key
  assume "(\<forall>x\<in>set xs. x \<notin> {BSLASH, LF, SEMI, HASH}) \<and> xs \<noteq> [] \<and>
      hd xs \<notin> {SPC, TAB, CR, LBRACE} \<and> buf p = [] \<and> (t = LF \<or> t = SEMI)"
  then show "readValue p (xs @ t # rest, e) key =
        (Some ReadKeyFn,
         Some (Field key
           (let b = encodeRunes (if keepSeqWhitespace p then dropCR xs
                                 else collapseRuns 0 (dropCR xs))
            in if keepTrailingWhitespace p then b else TrimRight b trimCutset)),
         None, p\<lparr>buf := []\<rparr>, (rest, e))"
    using readValue_plain [of xs p t rest e key] by blast
next
  fix p :: Parser and xs rest e
  assume "(\<forall>x\<in>set xs. x \<notin> {BSLASH, SPC, BANG, SEMI, TAB, LF, CR, HASH}) \<and> xs \<noteq> [] \<and>
      hd xs \<notin> {LBRACE, RBRACE} \<and> buf p = []"
  then show "readKey p (xs @ BANG # rest, e) =
        (Some ReadKeyFn,
         Some (Field (encodeRunes (if keepSeqWhitespace p then xs else collapseRuns 0 xs)) []),
         None, p\<lparr>buf := []\<rparr>, (rest, e))"
    using readKey_plain [of xs p rest e] by blast
next
  fix k l b c cs rest e
  assume "\<forall>x\<in>set (c # cs). x \<notin> {BSLASH, LF, SEMI, HASH}"
  then show "valueLoop k False l b c None (cs @ rest, e) =
        (case ReadRune (rest, e) of
           (c', err', r') \<Rightarrow>
             valueLoop k False
               (last (l # (if k then dropCR (c # cs) else collapseRuns l (dropCR (c # cs)))))
               (b @ encodeRunes (if k then dropCR (c # cs) else collapseRuns l (dropCR (c # cs))))
               c' err' r')"
    by (rule valueLoop_plain)
next
  fix k l b c cs rest e
  assume "\<forall>x\<in>set (c # cs). x \<notin> {BSLASH, SPC, BANG, SEMI, TAB, LF, CR, HASH}"
  then show "keyLoop k False l b c None (cs @ rest, e) =
        (case ReadRune (rest, e) of
           (c', err', r') \<Rightarrow>
             keyLoop k False
               (last (l # (if k then c # cs else collapseRuns l (c # cs))))
               (b @ encodeRunes (if k then c # cs else collapseRuns l (c # cs)))
               c' err' r')"
    by (rule keyLoop_plain)
next
  fix k l b c r
  assume "c \<noteq> CR \<and> c \<noteq> LF"
  then show "valueLoop k True l b c None r =
          (case ReadRune r of
             (c', err', r') \<Rightarrow>
               valueLoop k False (unescape c) (b @ encodeRune (unescape c)) c' err' r')"
    using valueLoop_escaped_step [of c k l b r] by blast
next
  fix k l b c r
  assume "c \<noteq> CR \<and> c \<noteq> LF"
  then show "keyLoop k True l b c None r =
          (case ReadRune r of
             (c', err', r') \<Rightarrow>
               keyLoop k False (unescape c) (b @ encodeRune (unescape c)) c' err' r')"
    using keyLoop_escaped_step [of c k l b r] by blast
next
  fix k l b r
  show "valueLoop k True l b LF None r =
          (case ReadRune r of
             (c', err', r') \<Rightarrow>
               valueLoop k False LF ((if k then b else chompBuffer b) @ [CHR 0x0A]) c' err' r')"
    by (rule valueLoop_escaped_LF)
next
  fix k l b r
  show "keyLoop k True l b LF None r =
          (case ReadRune r of
             (c', err', r') \<Rightarrow>
               keyLoop k False LF ((if k then b else chompBuffer b) @ [CHR 0x0A]) c' err' r')"
    by (rule keyLoop_escaped_LF)
next
  fix k esc l b r
  show "valueLoop k esc l b CR None r =
          (case ReadRune r of (c', err', r') \<Rightarrow> valueLoop k esc l b c' err' r')"
    by (rule valueLoop_CR_any)
next
  fix k l b r
  show "keyLoop k True l b CR None r =
          (case ReadRune r of (c', err', r') \<Rightarrow> keyLoop k True l b c' err' r')"
    by (rule keyLoop_CR_escaped)
next
  fix k l b r
  show "keyLoop k False l b CR None r = (b, CR, None, r)"
    by (rule keyLoop_end) simp
next
  fix b
  show "\<exists>t. b = chompBuffer b @ t \<and>
        (\<forall>c\<in>set t. IsSpace (of_char c) \<and> (of_char c :: rune) \<noteq> LF) \<and>
        (chompBuffer b = [] \<or> (of_char (last (chompBuffer b)) :: rune) = LF \<or>
         \<not> IsSpace (of_char (last (chompBuffer b))))"
    by (rule chompBuffer_split)
next
  fix l a ws y xs
  assume "\<not> IsSpace l \<and> IsSpace a \<and> (\<forall>x\<in>set ws. IsSpace x) \<and> \<not> IsSpace y"
  then show "collapseRuns l (a # ws @ y # xs) = a # y # collapseRuns y xs"
    using collapseRuns_run [of l a ws y xs] by blast
qed

theorem compress_whitespace_witness:
  "readValue (NewParser []) (runes (''a '' @ [CHR 0x0D] @ ''  b  c;''), EOF) ''k'' =
     (Some ReadKeyFn, Some (Field ''k'' ''a b c''), None, NewParser [], ([], EOF))
   \<and> readValue (NewParser [CompressWhitespace False])
        (runes (''a '' @ [CHR 0x0D] @ ''  b  c;''), EOF) ''k'' =
     (Some ReadKeyFn, Some (Field ''k'' ''a   b  c''), None, NewParser [CompressWhitespace False],
      ([], EOF))"
proof -
  let ?xs = "runes (''a '' @ [CHR 0x0D] @ ''  b  c'')"
  have xs: "?xs = [97, SPC, CR, SPC, SPC, 98, SPC, SPC, 99]" by (simp add: runes_def)
  have h: "(\<forall>x\<in>set ?xs. x \<notin> {BSLASH, LF, SEMI, HASH}) \<and> ?xs \<noteq> [] \<and>
           hd ?xs \<notin> {SPC, TAB, CR, LBRACE} \<and> buf p = [] \<and> (SEMI = LF \<or> SEMI = SEMI)"
    if "buf p = []" for p :: Parser
    using that unfolding xs by simp
  have b1: "buf (NewParser []) = []" and b2: "buf (NewParser [CompressWhitespace False]) = []"
    by (simp_all add: NewParser_def Reset_def)
  have r: "runes (''a '' @ [CHR 0x0D] @ ''  b  c;'') = ?xs @ SEMI # []" by (simp add: runes_def)
  from compress_whitespace have
    "\<forall>(p::Parser) xs t rest e key.
      (\<forall>x\<in>set xs. x \<notin> {BSLASH, LF, SEMI, HASH}) \<and> xs \<noteq> [] \<and>
      hd xs \<notin> {SPC, TAB, CR, LBRACE} \<and> buf p = [] \<and> (t = LF \<or> t = SEMI) \<longrightarrow>
      readValue p (xs @ t # rest, e) key =
        (Some ReadKeyFn,
         Some (Field key
           (let b = encodeRunes (if keepSeqWhitespace p then dropCR xs
                                 else collapseRuns 0 (dropCR xs))
            in if keepTrailingWhitespace p then b else TrimRight b trimCutset)),
         None, p\<lparr>buf := []\<rparr>, (rest, e))" by (rule conjunct1)
  from this [rule_format, OF h [OF b1], of "[]" EOF "''k''"]
       this [rule_format, OF h [OF b2], of "[]" EOF "''k''"]
  have i1: "readValue (NewParser []) (?xs @ SEMI # [], EOF) ''k'' =
        (Some ReadKeyFn,
         Some (Field ''k''
           (let b = encodeRunes (if keepSeqWhitespace (NewParser []) then dropCR ?xs
                                 else collapseRuns 0 (dropCR ?xs))
            in if keepTrailingWhitespace (NewParser []) then b else TrimRight b trimCutset)),
         None, NewParser [] \<lparr>buf := []\<rparr>, ([], EOF))"
    and i2: "readValue (NewParser [CompressWhitespace False]) (?xs @ SEMI # [], EOF) ''k'' =
        (Some ReadKeyFn,
         Some (Field ''k''
           (let b = encodeRunes (if keepSeqWhitespace (NewParser [CompressWhitespace False])
                                 then dropCR ?xs else collapseRuns 0 (dropCR ?xs))
            in if keepTrailingWhitespace (NewParser [CompressWhitespace False]) then b
               else TrimRight b trimCutset)),
         None, NewParser [CompressWhitespace False] \<lparr>buf := []\<rparr>, ([], EOF))"
    by simp_all
  have v1: "(let b = encodeRunes (if keepSeqWhitespace (NewParser []) then dropCR ?xs
                                 else collapseRuns 0 (dropCR ?xs))
            in if keepTrailingWhitespace (NewParser []) then b else TrimRight b trimCutset)
          = ''a b c''" by code_simp
  have v2: "(let b = encodeRunes (if keepSeqWhitespace (NewParser [CompressWhitespace False])
                                 then dropCR ?xs else collapseRuns 0 (dropCR ?xs))
            in if keepTrailingWhitespace (NewParser [CompressWhitespace False]) then b
               else TrimRight b trimCutset)
          = ''a   b  c''" by code_simp
  have p1: "NewParser [] \<lparr>buf := []\<rparr> = NewParser []"
    and p2: "NewParser [CompressWhitespace False] \<lparr>buf := []\<rparr> = NewParser [CompressWhitespace False]"
    by (simp_all add: NewParser_def Reset_def)
  from i1 i2 show ?thesis unfolding v1 v2 p1 p2 r by simp
qed

subsection \<open>Escaping and decoding\<close>

text \<open>
  What the accumulation of a value makes of the bytes \<open>s\<close> once escaped, starting from the
  buffer \<open>b\<close>: each byte is appended, and before an escaped line feed the buffer is chomped
  when white space is compressed.
\<close>

definition decodedValue :: "bool \<Rightarrow> string \<Rightarrow> string \<Rightarrow> string" where
  "decodedValue keepSeq b s =
     foldl (\<lambda>b a. (if a = CHR 0x0A \<and> \<not> keepSeq then chompBuffer b else b) @ [a]) b s"

lemma of_char_nonneg_int: "(0::int) \<le> of_char a"
proof -
  have "(of_char a :: int) = of_char a mod 256" by simp
  also have "0 \<le> \<dots>" by (rule pos_mod_sign) simp
  finally show ?thesis .
qed

lemma encodeRune_ascii: "(of_char a :: int) < 128 \<Longrightarrow> encodeRune (of_char a) = [a]"
  using of_char_nonneg_int [of a] by (simp add: encodeRune_def)

lemma keyEscaper_char:
  assumes "a \<in> fst ` set keyEscaper_table"
  shows "\<exists>x. runes (keyEscaper [a]) = [BSLASH, x] \<and> x \<noteq> CR \<and> x \<noteq> LF \<and>
             unescape x = of_char a \<and> (of_char a :: int) < 128"
  using assms
  by (auto simp: keyEscaper_table_def keyEscaper_def Replace_def runes_def unescape_def)

lemma valueEscaper_char:
  assumes "a \<in> fst ` set valueEscaper_table"
  shows "\<exists>x. runes (valueEscaper [a]) = [BSLASH, x] \<and> x \<noteq> CR \<and>
             unescape x = of_char a \<and> (of_char a :: int) < 128 \<and> (x = LF \<longleftrightarrow> a = CHR 0x0A)"
  using assms
  by (auto simp: valueEscaper_table_def valueEscaper_def Replace_def runes_def unescape_def)

lemma Replace_Cons: "Replace t (a # s) = Replace t [a] @ Replace t s"
  by (simp add: Replace_def)

lemma runes_append: "runes (s @ s') = runes s @ runes s'"
  by (simp add: runes_def)

lemma keyLoop_escape_pair:
  assumes "x \<noteq> CR" "x \<noteq> LF"
  shows "keyLoop k False l b BSLASH None (x # y # ys, e) =
           keyLoop k False (unescape x) (b @ encodeRune (unescape x)) y None (ys, e)"
proof -
  have "keyLoop k False l b BSLASH None (x # y # ys, e) = keyLoop k True l b x None (y # ys, e)"
    by (subst keyLoop.simps) (simp add: keyBody_def)
  also have "\<dots> = keyLoop k False (unescape x) (b @ encodeRune (unescape x)) y None (ys, e)"
    using assms by (subst keyLoop.simps) (simp add: keyBody_def WriteRune_def Let_def)
  finally show ?thesis .
qed

lemma valueLoop_escape_pair:
  assumes "x \<noteq> CR"
  shows "valueLoop k False l b BSLASH None (x # y # ys, e) =
           valueLoop k False (unescape x)
             ((if x = LF \<and> \<not> k then chompBuffer b else b) @ encodeRune (unescape x)) y None (ys, e)"
proof -
  have u: "unescape LF = LF" by (simp add: unescape_def)
  have "valueLoop k False l b BSLASH None (x # y # ys, e) = valueLoop k True l b x None (y # ys, e)"
    by (subst valueLoop.simps) (simp add: valueBody_def)
  also have "\<dots> = valueLoop k False (unescape x)
             ((if x = LF \<and> \<not> k then chompBuffer b else b) @ encodeRune (unescape x)) y None (ys, e)"
    using assms u by (subst valueLoop.simps) (auto simp: valueBody_def WriteRune_def Let_def)
  finally show ?thesis .
qed

lemma keyLoop_escaped:
  assumes "set s \<subseteq> fst ` set keyEscaper_table"
    and "runes (keyEscaper s) @ t # rest = c # cs"
  shows "keyLoop k False l b c None (cs, e) =
           keyLoop k False (last (l # map of_char s)) (b @ s) t None (rest, e)"
  using assms
proof (induction s arbitrary: l b c cs)
  case Nil
  then show ?case by (simp add: keyEscaper_def Replace_def runes_def)
next
  case (Cons a s)
  from Cons.prems(1) have a: "a \<in> fst ` set keyEscaper_table"
    and s: "set s \<subseteq> fst ` set keyEscaper_table" by auto
  from keyEscaper_char [OF a] obtain x where
    x: "runes (keyEscaper [a]) = [BSLASH, x]" "x \<noteq> CR" "x \<noteq> LF" "unescape x = of_char a"
       "(of_char a :: int) < 128" by blast
  have split: "runes (keyEscaper (a # s)) = BSLASH # x # runes (keyEscaper s)"
    using x(1) Replace_Cons [of keyEscaper_table a s] by (simp add: keyEscaper_def runes_append)
  obtain y ys where yys: "runes (keyEscaper s) @ t # rest = y # ys"
    by (cases "runes (keyEscaper s) @ t # rest") auto
  with Cons.prems(2) split have c: "c = BSLASH" "cs = x # y # ys" by auto
  have "keyLoop k False l b c None (cs, e)
          = keyLoop k False (of_char a) (b @ [a]) y None (ys, e)"
    unfolding c using keyLoop_escape_pair [OF x(2,3), of k l b y ys e] x(4) encodeRune_ascii [OF x(5)]
    by simp
  also have "\<dots> = keyLoop k False (last (of_char a # map of_char s)) ((b @ [a]) @ s) t None (rest, e)"
    by (rule Cons.IH [OF s yys])
  finally show ?case by simp
qed

lemma valueLoop_escaped:
  assumes "set s \<subseteq> fst ` set valueEscaper_table"
    and "runes (valueEscaper s) @ t # rest = c # cs"
  shows "valueLoop k False l b c None (cs, e) =
           valueLoop k False (last (l # map of_char s)) (decodedValue k b s) t None (rest, e)"
  using assms
proof (induction s arbitrary: l b c cs)
  case Nil
  then show ?case by (simp add: valueEscaper_def Replace_def runes_def decodedValue_def)
next
  case (Cons a s)
  from Cons.prems(1) have a: "a \<in> fst ` set valueEscaper_table"
    and s: "set s \<subseteq> fst ` set valueEscaper_table" by auto
  from valueEscaper_char [OF a] obtain x where
    x: "runes (valueEscaper [a]) = [BSLASH, x]" "x \<noteq> CR" "unescape x = of_char a"
       "(of_char a :: int) < 128" "x = LF \<longleftrightarrow> a = CHR 0x0A" by blast
  have split: "runes (valueEscaper (a # s)) = BSLASH # x # runes (valueEscaper s)"
    using x(1) Replace_Cons [of valueEscaper_table a s] by (simp add: valueEscaper_def runes_append)
  obtain y ys where yys: "runes (valueEscaper s) @ t # rest = y # ys"
    by (cases "runes (valueEscaper s) @ t # rest") auto
  with Cons.prems(2) split have c: "c = BSLASH" "cs = x # y # ys" by auto
  let ?b = "(if a = CHR 0x0A \<and> \<not> k then chompBuffer b else b) @ [a]"
  have "valueLoop k False l b c None (cs, e)
          = valueLoop k False (of_char a) ?b y None (ys, e)"
    unfolding c using valueLoop_escape_pair [OF x(2), of k l b y ys e] x(3,5) encodeRune_ascii [OF x(4)]
    by simp
  also have "\<dots> = valueLoop k False (last (of_char a # map of_char s)) (decodedValue k ?b s) t None (rest, e)"
    by (rule Cons.IH [OF s yys])
  finally show ?case by (simp add: decodedValue_def)
qed

lemma keyEscaper_hd:
  assumes "set s \<subseteq> fst ` set keyEscaper_table"
    and "runes (keyEscaper s) @ t # rest = c # cs"
  shows "c = BSLASH \<or> c = t"
proof (cases s)
  case Nil
  with assms(2) show ?thesis by (simp add: keyEscaper_def Replace_def runes_def)
next
  case (Cons a s')
  with assms(1) have "a \<in> fst ` set keyEscaper_table" by auto
  from keyEscaper_char [OF this] obtain x where "runes (keyEscaper [a]) = [BSLASH, x]" by blast
  with assms(2) Cons Replace_Cons [of keyEscaper_table a s'] show ?thesis
    by (simp add: keyEscaper_def runes_append)
qed

lemma valueEscaper_hd:
  assumes "set s \<subseteq> fst ` set valueEscaper_table"
    and "runes (valueEscaper s) @ t # rest = c # cs"
  shows "c = BSLASH \<or> c = t"
proof (cases s)
  case Nil
  with assms(2) show ?thesis by (simp add: valueEscaper_def Replace_def runes_def)
next
  case (Cons a s')
  with assms(1) have "a \<in> fst ` set valueEscaper_table" by auto
  from valueEscaper_char [OF this] obtain x where "runes (valueEscaper [a]) = [BSLASH, x]" by blast
  with assms(2) Cons Replace_Cons [of valueEscaper_table a s'] show ?thesis
    by (simp add: valueEscaper_def runes_append)
qed

lemma decodedValue_keepSeq: "decodedValue True b s = b @ s"
  by (induction s arbitrary: b) (simp_all add: decodedValue_def)

lemma readKey_escaped:
  assumes s: "set s \<subseteq> fst ` set keyEscaper_table" and b: "buf p = []"
  shows "readKey p (runes (keyEscaper s) @ BANG # rest, e) =
           (Some ReadKeyFn, Some (Field s []), None, p\<lparr>buf := []\<rparr>, (rest, e))"
proof -
  obtain c cs where ccs: "runes (keyEscaper s) @ BANG # rest = c # cs"
    by (cases "runes (keyEscaper s) @ BANG # rest") auto
  from keyEscaper_hd [OF s ccs] have c: "c = BSLASH \<or> c = BANG" .
  then have c': "c \<notin> {SPC, TAB, LF, CR}" "c \<noteq> RBRACE" "c \<noteq> LBRACE" "c \<noteq> HASH" by auto
  have "set ([]::rune list) \<subseteq> {SPC, TAB, LF, CR}" by simp
  from skipSpace_first [OF this c'(1), of cs e]
  have rf: "readFirst (runes (keyEscaper s) @ BANG # rest, e) = (c, None, (cs, e))"
    by (simp add: ccs)
  have "keyLoop (keepSeqWhitespace p) False 0 (buf p) c None (cs, e)
          = keyLoop (keepSeqWhitespace p) False (last (0 # map of_char s)) (buf p @ s)
              BANG None (rest, e)"
    by (rule keyLoop_escaped [OF s ccs])
  also have "\<dots> = (buf p @ s, BANG, None, (rest, e))"
    by (rule keyLoop_end) simp
  finally have kl: "keyLoop (keepSeqWhitespace p) False 0 (buf p) c None (cs, e)
                      = (s, BANG, None, (rest, e))"
    by (simp only: b append_Nil)
  show ?thesis using rf kl c' by (simp add: readKey_def Let_def)
qed

lemma readValue_escaped:
  assumes s: "set s \<subseteq> fst ` set valueEscaper_table" and b: "buf p = []"
  shows "readValue p (runes (valueEscaper s) @ SEMI # rest, e) key =
           (Some ReadKeyFn,
            Some (Field key
              (let b = decodedValue (keepSeqWhitespace p) [] s
               in if keepTrailingWhitespace p then b else TrimRight b trimCutset)),
            None, p\<lparr>buf := []\<rparr>, (rest, e))"
proof -
  obtain c cs where ccs: "runes (valueEscaper s) @ SEMI # rest = c # cs"
    by (cases "runes (valueEscaper s) @ SEMI # rest") auto
  from valueEscaper_hd [OF s ccs] have c: "c = BSLASH \<or> c = SEMI" .
  then have c': "c \<notin> {SPC, TAB, LF, CR}" "c \<noteq> LBRACE" "c \<noteq> HASH" by auto
  have "set ([]::rune list) \<subseteq> {SPC, TAB, LF, CR}" by simp
  from skipSpace_first [OF this c'(1), of cs e]
  have rf: "readFirst (runes (valueEscaper s) @ SEMI # rest, e) = (c, None, (cs, e))"
    by (simp add: ccs)
  let ?d = "decodedValue (keepSeqWhitespace p) (buf p) s"
  have "valueLoop (keepSeqWhitespace p) False 0 (buf p) c None (cs, e)
          = valueLoop (keepSeqWhitespace p) False (last (0 # map of_char s)) ?d SEMI None (rest, e)"
    by (rule valueLoop_escaped [OF s ccs])
  also have "\<dots> = (?d, SEMI, None, (rest, e))"
    by (rule valueLoop_end) simp
  finally have vl: "valueLoop (keepSeqWhitespace p) False 0 (buf p) c None (cs, e)
                      = (decodedValue (keepSeqWhitespace p) [] s, SEMI, None, (rest, e))"
    by (simp only: b)
  show ?thesis using rf vl c' by (simp add: readValue_def Let_def TrimRight_Nil)
qed

text \<open>
  Claim C5, as stated: for every string over the reserved characters, decoding its escaped
  form gives the string back, for the key table and for the value table.  For the value table
  it does not under the default configuration: the value escaper writes a line feed as
  backslash and line feed, and before that line feed \<open>readValue\<close> chomps the white space at
  the end of the buffer (here the form feed); and a trailing line feed or CR of the value is
  trimmed.
\<close>

theorem value_escape_roundtrip_counterexample:
  "readValue (NewParser []) (runes (valueEscaper [CHR 0x0C, CHR 0x0A, CHR ''#'']) @ [SEMI], EOF) ''k''
     = (Some ReadKeyFn, Some (Field ''k'' [CHR 0x0A, CHR ''#'']), None, NewParser [], ([], EOF))
   \<and> [CHR 0x0A, CHR ''#''] \<noteq> [CHR 0x0C, CHR 0x0A, CHR ''#'']
   \<and> Parse (runes (''k '' @ valueEscaper [CHR 0x0C, CHR 0x0A, CHR ''#''] @ '';''), EOF) []
     = ([Some (Field ''k'' [CHR 0x0A, CHR ''#''])], None)
   \<and> Parse (runes (''k '' @ valueEscaper [CHR ''#'', CHR 0x0A] @ '';''), EOF) [CompressWhitespace False]
     = ([Some (Field ''k'' ''#'')], None)"
  by code_simp

text \<open>
  Claim C5, amended.  For every string \<open>s\<close> over the characters of the key table, \<open>readKey\<close>
  on the escaped form of \<open>s\<close> followed by \<open>!\<close> emits \<open>Field{s, ""}\<close>, under every
  configuration.  For every string \<open>s\<close> over the characters of the value table, \<open>readValue\<close>
  on the escaped form of \<open>s\<close> followed by \<open>;\<close> emits \<open>Field{key, s}\<close> when \<open>CompressWhitespace\<close>
  and \<open>TrimWhitespace\<close> are both disabled; in general it emits \<open>s\<close> less the white space
  chomped before each of its line feeds (when compressing) and less its trailing run of
  space, tab, CR and LF (when trimming).
\<close>

theorem escape_roundtrip:
  "(\<forall>(p::Parser) s rest e.
      set s \<subseteq> fst ` set keyEscaper_table \<and> buf p = [] \<longrightarrow>
      readKey p (runes (keyEscaper s) @ BANG # rest, e) =
        (Some ReadKeyFn, Some (Field s []), None, p\<lparr>buf := []\<rparr>, (rest, e)))
   \<and> (\<forall>(p::Parser) s rest e key.
      set s \<subseteq> fst ` set valueEscaper_table \<and> buf p = [] \<and>
      keepSeqWhitespace p \<and> keepTrailingWhitespace p \<longrightarrow>
      readValue p (runes (valueEscaper s) @ SEMI # rest, e) key =
        (Some ReadKeyFn, Some (Field key s), None, p\<lparr>buf := []\<rparr>, (rest, e)))
   \<and> (\<forall>(p::Parser) s rest e key.
      set s \<subseteq> fst ` set valueEscaper_table \<and> buf p = [] \<longrightarrow>
      readValue p (runes (valueEscaper s) @ SEMI # rest, e) key =
        (Some ReadKeyFn,
         Some (Field key
           (let b = decodedValue (keepSeqWhitespace p) [] s
            in if keepTrailingWhitespace p then b else TrimRight b trimCutset)),
         None, p\<lparr>buf := []\<rparr>, (rest, e)))"
proof (intro conjI allI impI)
  fix p :: Parser and s rest e
  assume "set s \<subseteq> fst ` set keyEscaper_table \<and> buf p = []"
  then show "readKey p (runes (keyEscaper s) @ BANG # rest, e) =
        (Some ReadKeyFn, Some (Field s []), None, p\<lparr>buf := []\<rparr>, (rest, e))"
    using readKey_escaped [of s p rest e] by blast
next
  fix p :: Parser and s rest e key
  assume a: "set s \<subseteq> fst ` set valueEscaper_table \<and> buf p = [] \<and>
      keepSeqWhitespace p \<and> keepTrailingWhitespace p"
  then have "readValue p (runes (valueEscaper s) @ SEMI # rest, e) key =
           (Some ReadKeyFn,
            Some (Field key
              (let b = decodedValue (keepSeqWhitespace p) [] s
               in if keepTrailingWhitespace p then b else TrimRight b trimCutset)),
            None, p\<lparr>buf := []\<rparr>, (rest, e))"
    using readValue_escaped [of s p rest e key] by blast
  with a show "readValue p (runes (valueEscaper s) @ SEMI # rest, e) key =
        (Some ReadKeyFn, Some (Field key s), None, p\<lparr>buf := []\<rparr>, (rest, e))"
    by (simp add: decodedValue_keepSeq)
next
  fix p :: Parser and s rest e key
  assume "set s \<subseteq> fst ` set valueEscaper_table \<and> buf p = []"
  then show "readValue p (runes (valueEscaper s) @ SEMI # rest, e) key =
        (Some ReadKeyFn,
         Some (Field key
           (let b = decodedValue (keepSeqWhitespace p) [] s
            in if keepTrailingWhitespace p then b else TrimRight b trimCutset)),
         None, p\<lparr>buf := []\<rparr>, (rest, e))"
    using readValue_escaped [of s p rest e key] by blast
qed

theorem escape_roundtrip_witness:
  "readKey (NewParser []) (runes (keyEscaper [CHR '' '', CHR 0x09, CHR ''!'', CHR 0x0A]) @ BANG # [], EOF) =
     (Some ReadKeyFn, Some (Field [CHR '' '', CHR 0x09, CHR ''!'', CHR 0x0A] []), None,
      NewParser [], ([], EOF))
   \<and> readValue (NewParser [CompressWhitespace False, TrimWhitespace False])
        (runes (valueEscaper [CHR 0x0C, CHR 0x0A, CHR ''#'', CHR 0x0D]) @ SEMI # [], EOF) ''k'' =
     (Some ReadKeyFn, Some (Field ''k'' [CHR 0x0C, CHR 0x0A, CHR ''#'', CHR 0x0D]), None,
      NewParser [CompressWhitespace False, TrimWhitespace False], ([], EOF))"
proof -
  let ?p = "NewParser []" and ?q = "NewParser [CompressWhitespace False, TrimWhitespace False]"
  have hk: "set [CHR '' '', CHR 0x09, CHR ''!'', CHR 0x0A] \<subseteq> fst ` set keyEscaper_table
            \<and> buf ?p = []"
    by (simp add: keyEscaper_table_def NewParser_def Reset_def)
  have hv: "set [CHR 0x0C, CHR 0x0A, CHR ''#'', CHR 0x0D] \<subseteq> fst ` set valueEscaper_table
            \<and> buf ?q = [] \<and> keepSeqWhitespace ?q \<and> keepTrailingWhitespace ?q"
    by (simp add: valueEscaper_table_def NewParser_def Reset_def)
  have p: "?p\<lparr>buf := []\<rparr> = ?p" "?q\<lparr>buf := []\<rparr> = ?q"
    by (simp_all add: NewParser_def Reset_def)
  from escape_roundtrip [THEN conjunct1, rule_format, OF hk, of "[]" EOF]
       escape_roundtrip [THEN conjunct2, THEN conjunct1, rule_format, OF hv, of "[]" EOF "''k''"]
  show ?thesis unfolding p by simp
qed

subsection \<open>Carriage returns in a value\<close>

text \<open>
  Whether, somewhere in a sequence of code points, a backslash is directly followed by the
  letter \<open>r\<close>.
\<close>

fun hasEscapedR :: "rune list \<Rightarrow> bool" where
  "hasEscapedR (a # b # xs) = ((a = BSLASH \<and> b = 114) \<or> hasEscapedR (b # xs))"
| "hasEscapedR xs = False"

lemma char_of_CR_iff: "char_of (n::int) = CHR 0x0D \<longleftrightarrow> n mod 256 = 13"
  by (simp add: char_of_eq_iff take_bit_eq_mod)

lemma char_of_high: "128 \<le> n \<Longrightarrow> n < 256 \<Longrightarrow> char_of (n::int) \<noteq> CHR 0x0D"
  by (simp add: char_of_CR_iff)

lemma encodeRune_no_CR:
  assumes "c \<noteq> CR"
  shows "CHR 0x0D \<notin> set (encodeRune c)"
proof -
  define r where "r = (if c < 0 \<or> 0x10FFFF < c \<or> (0xD800 \<le> c \<and> c \<le> 0xDFFF) then 0xFFFD else c)"
  have r: "0 \<le> r" "r \<le> 0x10FFFF" "r \<noteq> 13" using assms by (auto simp: r_def)
  have e: "encodeRune c =
      (if r < 0x80 then [char_of r]
         else if r < 0x800 then [char_of (0xC0 + r div 64), char_of (0x80 + r mod 64)]
         else if r < 0x10000 then
           [char_of (0xE0 + r div 4096), char_of (0x80 + r div 64 mod 64), char_of (0x80 + r mod 64)]
         else
           [char_of (0xF0 + r div 262144), char_of (0x80 + r div 4096 mod 64),
            char_of (0x80 + r div 64 mod 64), char_of (0x80 + r mod 64)])"
    by (simp add: encodeRune_def r_def Let_def)
  have hi: "CHR 0x0D \<noteq> char_of n" if "128 \<le> n" "n < 256" for n :: int
    using char_of_high [OF that] by auto
  have t1: "CHR 0x0D \<noteq> char_of (0x80 + r mod 64)"
    and t2: "CHR 0x0D \<noteq> char_of (0x80 + r div 64 mod 64)"
    and t3: "CHR 0x0D \<noteq> char_of (0x80 + r div 4096 mod 64)"
    by (rule hi; simp)+
  consider (a) "r < 0x80" | (b) "0x80 \<le> r" "r < 0x800" | (c) "0x800 \<le> r" "r < 0x10000"
    | (d) "0x10000 \<le> r" by linarith
  then show ?thesis
  proof cases
    case a
    with r have "r mod 256 = r" by simp
    with r have "char_of r \<noteq> CHR 0x0D" by (simp add: char_of_CR_iff)
    with a show ?thesis by (auto simp: e)
  next
    case b
    then have "128 \<le> 0xC0 + r div 64" "0xC0 + r div 64 < 256" by simp_all
    from hi [OF this] b t1 show ?thesis by (simp add: e)
  next
    case c
    then have "128 \<le> 0xE0 + r div 4096" "0xE0 + r div 4096 < 256" by simp_all
    from hi [OF this] c t1 t2 show ?thesis by (simp add: e)
  next
    case d
    with r have "128 \<le> 0xF0 + r div 262144" "0xF0 + r div 262144 < 256" by simp_all
    from hi [OF this] d t1 t2 t3 show ?thesis by (simp add: e)
  qed
qed

lemma hasEscapedR_Cons: "hasEscapedR xs \<Longrightarrow> hasEscapedR (x # xs)"
  by (cases xs) auto

lemma hasEscapedR_append: "hasEscapedR zs \<Longrightarrow> hasEscapedR (pre @ zs)"
  by (induction pre) (auto intro: hasEscapedR_Cons)

lemma readFirst_Nil: "readFirst ([], e) = (0, Some e, ([], e))"
  by (simp add: readFirst_def skipSpace_stop)

lemma readFirst_Cons:
  "readFirst (x # xs, e) =
     (if x = SPC \<or> x = TAB \<or> x = LF \<or> x = CR then readFirst (xs, e) else (x, None, (xs, e)))"
  by (simp only: readFirst_def ReadRune.simps prod.case, subst skipSpace.simps, simp)

lemma readFirst_dropCR:
  "readFirst (xs, e) = (c, err, (rest, e')) \<Longrightarrow>
     readFirst (dropCR xs, e) = (c, err, (dropCR rest, e'))"
proof (induction xs)
  case Nil
  then show ?case by (auto simp: readFirst_Nil)
next
  case (Cons x xs)
  then show ?case by (auto simp: readFirst_Cons split: if_splits)
qed

lemma readFirst_split:
  "readFirst (xs, e) = (c, None, (rest, e')) \<Longrightarrow> c \<noteq> CR \<and> (\<exists>pre. xs = pre @ c # rest)"
proof (induction xs)
  case Nil
  then show ?case by (simp add: readFirst_Nil)
next
  case (Cons x xs)
  show ?case
  proof (cases "x = SPC \<or> x = TAB \<or> x = LF \<or> x = CR")
    case True
    with Cons.prems have "readFirst (xs, e) = (c, None, (rest, e'))" by (simp add: readFirst_Cons)
    from Cons.IH [OF this] obtain pre where "c \<noteq> CR" "xs = pre @ c # rest" by blast
    then have "c \<noteq> CR \<and> x # xs = (x # pre) @ c # rest" by simp
    then show ?thesis by blast
  next
    case False
    with Cons.prems have "c = x" "rest = xs" by (auto simp: readFirst_Cons)
    with False have "c \<noteq> CR \<and> x # xs = [] @ c # rest" by simp
    then show ?thesis by blast
  qed
qed

lemma valueLoop_CR_end:
  "valueLoop k esc l b CR None ([], e) = (b, 0, Some e, ([], e))"
  by (simp add: valueLoop_CR_any valueLoop_stop)

lemma valueLoop_BSLASH:
  "valueLoop k False l b BSLASH None (y # ys, e) = valueLoop k True l b y None (ys, e)"
  by (subst valueLoop.simps) (simp add: valueBody_def)

lemma valueLoop_dropCR_aux:
  "(case ReadRune (xs, e) of (c, err, r) \<Rightarrow> valueLoop k esc l b c err r)
      = (b', c', err', (rest, e')) \<Longrightarrow>
   (case ReadRune (dropCR xs, e) of (c, err, r) \<Rightarrow> valueLoop k esc l b c err r)
      = (b', c', err', (dropCR rest, e'))"
proof (induction xs arbitrary: esc l b)
  case Nil
  then show ?case by (auto simp: valueLoop_stop)
next
  case (Cons x xs)
  from Cons.prems have run: "valueLoop k esc l b x None (xs, e) = (b', c', err', (rest, e'))"
    by simp
  show ?case
  proof (cases "x = CR")
    case True
    with run have "(case ReadRune (xs, e) of (c, err, r) \<Rightarrow> valueLoop k esc l b c err r)
                     = (b', c', err', (rest, e'))"
      by (simp add: valueLoop_CR_any)
    from Cons.IH [OF this] True show ?thesis by simp
  next
    case False
    let ?go = "\<not> (\<not> esc \<and> (x = LF \<or> x = SEMI \<or> x = HASH)) \<and> valueBody k esc l b x \<noteq> None"
    show ?thesis
    proof (cases ?go)
      case True
      then obtain esc1 l1 b1 where vb: "valueBody k esc l b x = Some (esc1, l1, b1)" by auto
      from run True vb have
        "(case ReadRune (xs, e) of (c, err, r) \<Rightarrow> valueLoop k esc1 l1 b1 c err r)
           = (b', c', err', (rest, e'))"
        by (subst (asm) valueLoop.simps) simp
      from Cons.IH [OF this] have
        "(case ReadRune (dropCR xs, e) of (c, err, r) \<Rightarrow> valueLoop k esc1 l1 b1 c err r)
           = (b', c', err', (dropCR rest, e'))" .
      with True vb False show ?thesis by (simp, subst valueLoop.simps, simp)
    next
      case stop: False
      with run have "(b', c', err', (rest, e')) = (b, x, None, (xs, e))"
        by (subst (asm) valueLoop.simps) (auto split: option.splits)
      moreover from stop have "valueLoop k esc l b x None (dropCR xs, e) = (b, x, None, (dropCR xs, e))"
        by (subst valueLoop.simps) (auto split: option.splits)
      ultimately show ?thesis using False by simp
    qed
  qed
qed

lemma readValue_dropCR:
  assumes "readValue p (xs, e) key = (n, pc, err, p', (rest, e'))"
  shows "readValue p (dropCR xs, e) key = (n, pc, err, p', (dropCR rest, e'))"
proof -
  obtain c er r1 e1 where rf: "readFirst (xs, e) = (c, er, (r1, e1))"
    by (cases "readFirst (xs, e)") auto
  note rf' = readFirst_dropCR [OF rf]
  obtain b c' er' r2 e2 where
    vl: "valueLoop (keepSeqWhitespace p) False 0 (buf p) c er (r1, e1) = (b, c', er', (r2, e2))"
    by (cases "valueLoop (keepSeqWhitespace p) False 0 (buf p) c er (r1, e1)") auto
  have vl': "valueLoop (keepSeqWhitespace p) False 0 (buf p) c er (dropCR r1, e1)
               = (b, c', er', (dropCR r2, e2))"
  proof (cases er)
    case (Some x)
    with vl show ?thesis by (auto simp: valueLoop_stop)
  next
    case None
    with rf readFirst_split have c: "c \<noteq> CR" by blast
    from vl None have "(case ReadRune (c # r1, e1) of (c, err, r) \<Rightarrow>
                          valueLoop (keepSeqWhitespace p) False 0 (buf p) c err r)
                        = (b, c', er', (r2, e2))" by simp
    from valueLoop_dropCR_aux [OF this] c None show ?thesis by simp
  qed
  from assms rf rf' vl vl' show ?thesis
    by (auto simp: readValue_def enter_def Let_def split: if_splits)
qed

lemma set_chompBuffer: "set (chompBuffer b) \<subseteq> set b"
proof -
  have "set (chomp_rev bs) \<subseteq> set bs" for bs by (induction bs) auto
  from this [of "rev b"] show ?thesis by (simp add: chompBuffer_def)
qed

lemma set_TrimRight: "set (TrimRight b cs) \<subseteq> set b"
  using set_dropWhileD [of _ "\<lambda>c. c \<in> set cs" "rev b"] by (auto simp: TrimRight_def)

lemma unescape_CR: "unescape x = CR \<longleftrightarrow> x = 114 \<or> x = CR"
  by (simp add: unescape_def)

lemma valueBody_no_CR:
  assumes "valueBody k esc l b x = Some (esc1, l1, b1)" and "x \<noteq> CR"
    and "CHR 0x0D \<notin> set b" and "\<not> hasEscapedR ((if esc then [BSLASH] else []) @ x # xs)"
  shows "CHR 0x0D \<notin> set b1 \<and> \<not> hasEscapedR ((if esc1 then [BSLASH] else []) @ xs)"
proof (cases esc)
  case True
  with assms(4) have x: "x \<noteq> 114" and xs: "\<not> hasEscapedR (x # xs)" by auto
  from xs hasEscapedR_Cons have xs': "\<not> hasEscapedR xs" by blast
  let ?c1 = "if x = LF then x else unescape x"
  from x assms(2) have "?c1 \<noteq> CR" by (simp add: unescape_CR)
  from encodeRune_no_CR [OF this] have enc: "CHR 0x0D \<notin> set (encodeRune ?c1)" .
  from assms(3) set_chompBuffer [of b] have cb: "CHR 0x0D \<notin> set (chompBuffer b)" by blast
  from assms(1,2) True have "esc1 = False"
    "b1 = (if x = LF \<and> \<not> k then chompBuffer b else b) @ encodeRune ?c1"
    by (auto simp: valueBody_def WriteRune_def Let_def split: if_splits)
  with enc cb assms(3) xs' show ?thesis by (auto split: if_splits)
next
  case False
  with assms(4) have h: "\<not> hasEscapedR (x # xs)" by simp
  from h hasEscapedR_Cons have xs': "\<not> hasEscapedR xs" by blast
  from encodeRune_no_CR [OF assms(2)] have enc: "CHR 0x0D \<notin> set (encodeRune x)" .
  from assms(1,2) False consider
      (bs) "x = BSLASH" "esc1 = True" "b1 = b"
    | (skip) "esc1 = False" "b1 = b"
    | (wr) "esc1 = False" "b1 = b @ encodeRune x"
    by (auto simp: valueBody_def WriteRune_def split: if_splits)
  then show ?thesis
  proof cases
    case bs
    with h assms(3) show ?thesis by simp
  next
    case skip
    with xs' assms(3) show ?thesis by simp
  next
    case wr
    with xs' assms(3) enc show ?thesis by simp
  qed
qed

lemma valueLoop_no_CR_aux:
  "(case ReadRune (xs, e) of (c, err, r) \<Rightarrow> valueLoop k esc l b c err r)
      = (b', c', err', (rest, e')) \<Longrightarrow>
   CHR 0x0D \<notin> set b \<Longrightarrow>
   \<not> hasEscapedR (dropCR ((if esc then [BSLASH] else []) @ take (length xs - length rest) xs)) \<Longrightarrow>
   CHR 0x0D \<notin> set b'"
proof (induction xs arbitrary: esc l b)
  case Nil
  then show ?case by (auto simp: valueLoop_stop)
next
  case (Cons x xs)
  from Cons.prems(1) have run: "valueLoop k esc l b x None (xs, e) = (b', c', err', (rest, e'))"
    by simp
  from valueLoop_length [OF run] have "length rest \<le> length xs" by simp
  then have tk: "take (length (x # xs) - length rest) (x # xs) = x # take (length xs - length rest) xs"
    by (simp add: Suc_diff_le)
  let ?used = "take (length xs - length rest) xs"
  from Cons.prems(3) have h: "\<not> hasEscapedR (dropCR ((if esc then [BSLASH] else []) @ x # ?used))"
    unfolding tk .
  show ?case
  proof (cases "x = CR")
    case True
    with run have "(case ReadRune (xs, e) of (c, err, r) \<Rightarrow> valueLoop k esc l b c err r)
                     = (b', c', err', (rest, e'))"
      by (simp add: valueLoop_CR_any)
    from Cons.IH [OF this Cons.prems(2)] h True show ?thesis by simp
  next
    case False
    let ?go = "\<not> (\<not> esc \<and> (x = LF \<or> x = SEMI \<or> x = HASH)) \<and> valueBody k esc l b x \<noteq> None"
    show ?thesis
    proof (cases ?go)
      case True
      then obtain esc1 l1 b1 where vb: "valueBody k esc l b x = Some (esc1, l1, b1)" by auto
      from run True vb have nxt:
        "(case ReadRune (xs, e) of (c, err, r) \<Rightarrow> valueLoop k esc1 l1 b1 c err r)
           = (b', c', err', (rest, e'))"
        by (subst (asm) valueLoop.simps) simp
      from h False
      have "\<not> hasEscapedR ((if esc then [BSLASH] else []) @ x # dropCR ?used)" by simp
      from valueBody_no_CR [OF vb False Cons.prems(2) this]
      have "CHR 0x0D \<notin> set b1"
        "\<not> hasEscapedR (dropCR ((if esc1 then [BSLASH] else []) @ ?used))"
        by auto
      from Cons.IH [OF nxt this] show ?thesis .
    next
      case stop: False
      with run have "b' = b"
        by (subst (asm) valueLoop.simps) (auto split: option.splits)
      with Cons.prems(2) show ?thesis by simp
    qed
  qed
qed

lemma readValue_no_CR:
  assumes rv: "readValue p (xs, e) key = (n, Some (Field k v), err, p', (rest, e'))"
    and b: "buf p = []"
    and h: "\<not> hasEscapedR (dropCR (take (length xs - length rest) xs))"
  shows "CHR 0x0D \<notin> set v"
proof -
  obtain c er r1 e1 where rf: "readFirst (xs, e) = (c, er, (r1, e1))"
    by (cases "readFirst (xs, e)") auto
  obtain bb c' er' r2 e2 where
    vl: "valueLoop (keepSeqWhitespace p) False 0 (buf p) c er (r1, e1) = (bb, c', er', (r2, e2))"
    by (cases "valueLoop (keepSeqWhitespace p) False 0 (buf p) c er (r1, e1)") auto
  from rv rf vl have v: "v = [] \<or> (rest = r2 \<and> (v = bb \<or> v = TrimRight bb trimCutset))"
    by (auto simp: readValue_def enter_def Let_def split: if_splits)
  show ?thesis
  proof (cases "v = []")
    case True
    then show ?thesis by simp
  next
    case False
    with v have rest: "rest = r2" and vb: "v = bb \<or> v = TrimRight bb trimCutset" by auto
    have bb: "CHR 0x0D \<notin> set bb"
    proof (cases er)
      case (Some x)
      with vl b show ?thesis by (auto simp: valueLoop_stop)
    next
      case None
      with rf readFirst_split obtain pre where c: "c \<noteq> CR" and xs: "xs = pre @ c # r1" by blast
      from vl None have run: "valueLoop (keepSeqWhitespace p) False 0 (buf p) c None (r1, e1)
                          = (bb, c', er', (r2, e2))" by simp
      from valueLoop_length [OF run] have le: "length r2 \<le> length r1" by simp
      then have "length xs - length rest = length pre + (length (c # r1) - length r2)"
        by (simp add: xs rest)
      then have "take (length xs - length rest) xs
                   = pre @ take (length (c # r1) - length r2) (c # r1)"
        by (simp add: xs)
      with h have "\<not> hasEscapedR (dropCR pre @ dropCR (take (length (c # r1) - length r2) (c # r1)))"
        by simp
      with hasEscapedR_append
      have "\<not> hasEscapedR (dropCR (take (length (c # r1) - length r2) (c # r1)))" by blast
      then have h': "\<not> hasEscapedR (dropCR ((if False then [BSLASH] else [])
                        @ take (length (c # r1) - length r2) (c # r1)))" by simp
      from run have "(case ReadRune (c # r1, e1) of (c, err, r) \<Rightarrow>
                          valueLoop (keepSeqWhitespace p) False 0 (buf p) c err r)
                        = (bb, c', er', (r2, e2))" by simp
      from valueLoop_no_CR_aux [OF this _ h'] b show ?thesis by simp
    qed
    with vb set_TrimRight [of bb trimCutset] show ?thesis by auto
  qed
qed

text \<open>
  Claim C10.  Under every configuration, a carriage return read from the source during the
  accumulation of a value is discarded entirely.  One turn of the loop on a CR writes
  nothing, does not end the value and leaves the pending escape as it was, so that backslash,
  CR, LF is read exactly as backslash, LF (a line continuation).  Hence the result of \<open>readValue\<close>
  on a source is its result on the same source without its CRs (the piece, the error, the
  parser and the continuation are the same, and what is left of the source is the same
  without its CRs).  And the emitted value contains the byte CR only if, in the part of the
  source that \<open>readValue\<close> has consumed, its CRs set aside, a backslash is directly followed by
  the letter \<open>r\<close>: only the escape sequence can put a carriage return into a value.
\<close>

theorem carriage_return_discarded:
  "(\<forall>k esc l b x xs e.
      valueLoop k esc l b CR None (x # xs, e) = valueLoop k esc l b x None (xs, e))
   \<and> (\<forall>k esc l b e. valueLoop k esc l b CR None ([], e) = (b, 0, Some e, ([], e)))
   \<and> (\<forall>k l b x xs e.
      valueLoop k False l b BSLASH None (CR # LF # x # xs, e) =
        valueLoop k False l b BSLASH None (LF # x # xs, e))
   \<and> (\<forall>(p::Parser) xs e key n pc err p' rest e'.
      readValue p (xs, e) key = (n, pc, err, p', (rest, e')) \<longrightarrow>
      readValue p (dropCR xs, e) key = (n, pc, err, p', (dropCR rest, e')))
   \<and> (\<forall>(p::Parser) xs e key n k v err p' rest e'.
      readValue p (xs, e) key = (n, Some (Field k v), err, p', (rest, e')) \<and> buf p = [] \<and>
      \<not> hasEscapedR (dropCR (take (length xs - length rest) xs)) \<longrightarrow>
      CHR 0x0D \<notin> set v)"
proof (intro conjI allI impI)
  fix k esc l b x xs e
  show "valueLoop k esc l b CR None (x # xs, e) = valueLoop k esc l b x None (xs, e)"
    by (rule valueLoop_CR)
next
  fix k esc l b e
  show "valueLoop k esc l b CR None ([], e) = (b, 0, Some e, ([], e))"
    by (rule valueLoop_CR_end)
next
  fix k l b x xs e
  show "valueLoop k False l b BSLASH None (CR # LF # x # xs, e) =
        valueLoop k False l b BSLASH None (LF # x # xs, e)"
    by (simp only: valueLoop_BSLASH valueLoop_CR)
next
  fix p :: Parser and xs e key n pc err p' rest e'
  assume "readValue p (xs, e) key = (n, pc, err, p', (rest, e'))"
  then show "readValue p (dropCR xs, e) key = (n, pc, err, p', (dropCR rest, e'))"
    by (rule readValue_dropCR)
next
  fix p :: Parser and xs e key n k v err p' rest e'
  assume "readValue p (xs, e) key = (n, Some (Field k v), err, p', (rest, e')) \<and> buf p = [] \<and>
      \<not> hasEscapedR (dropCR (take (length xs - length rest) xs))"
  then show "CHR 0x0D \<notin> set v"
    using readValue_no_CR [of p xs e key n k v err p' rest e'] by blast
qed

theorem carriage_return_discarded_witness:
  "readValue (NewParser [])
     (dropCR (runes (''a'' @ [CHR 0x0D] @ ''b'' @ [CHR 0x5C, CHR 0x0D, CHR 0x0A] @ ''c''
                     @ [CHR 0x0A, CHR 0x0D] @ ''d'' @ [CHR 0x5C] @ ''r'')), EOF) ''k''
     = (Some ReadKeyFn, Some (Field ''k'' (''ab'' @ [CHR 0x0A] @ ''c'')), None, NewParser [],
        (dropCR (runes ([CHR 0x0D] @ ''d'' @ [CHR 0x5C] @ ''r'')), EOF))
   \<and> CHR 0x0D \<notin> set (''ab'' @ [CHR 0x0A] @ ''c'')"
proof -
  let ?xs = "runes (''a'' @ [CHR 0x0D] @ ''b'' @ [CHR 0x5C, CHR 0x0D, CHR 0x0A] @ ''c''
                     @ [CHR 0x0A, CHR 0x0D] @ ''d'' @ [CHR 0x5C] @ ''r'')"
  let ?v = "''ab'' @ [CHR 0x0A] @ ''c''"
  have rv: "readValue (NewParser []) (?xs, EOF) ''k''
     = (Some ReadKeyFn, Some (Field ''k'' ?v), None, NewParser [],
        (runes ([CHR 0x0D] @ ''d'' @ [CHR 0x5C] @ ''r''), EOF))"
    by code_simp
  have b: "buf (NewParser []) = []" by (simp add: NewParser_def Reset_def)
  have h: "\<not> hasEscapedR (dropCR (take (length ?xs
                  - length (runes ([CHR 0x0D] @ ''d'' @ [CHR 0x5C] @ ''r''))) ?xs))" by code_simp
  note c = carriage_return_discarded
  note inv = c [THEN conjunct2, THEN conjunct2, THEN conjunct2, THEN conjunct1]
  note nocr = c [THEN conjunct2, THEN conjunct2, THEN conjunct2, THEN conjunct2]
  from inv [rule_format, OF rv] nocr [rule_format, OF conjI [OF rv conjI [OF b h]]]
  show ?thesis by blast
qed

end
